theory Spec2Isabelle
  imports Complex_Main "HOL-Library.Multiset"
begin

section \<open>Numbers and numpy primitives\<close>

text \<open>
  Coordinates are numpy \<open>float64\<close> values: IEEE 754 double precision. A finite value
  is a real number, next to the three special values \<open>+inf\<close>, \<open>-inf\<close> and \<open>nan\<close>.
  Every arithmetic operation computes the exact real result and rounds it to the nearest
  double, a tie going to the even significand (\<open>round64\<close>): 53 significant bits, the
  subnormal range down to \<open>pow2 (-1074)\<close> (below half of which a result underflows to
  zero), and overflow to an infinity from \<open>pow2 1024\<close> on. On the special values the
  operations follow IEEE 754: an undefined operation gives \<open>nan\<close>, \<open>nan\<close> propagates
  and compares false with everything, itself included. The sign of zero is not modelled.
\<close>

datatype flt = Fin real | PInf | NInf | NaN

datatype error = IndexError | ValueError | KeyError | TypeError

fun isnan :: "flt \<Rightarrow> bool" where
  "isnan NaN = True"
| "isnan _ = False"

fun isfinite :: "flt \<Rightarrow> bool" where
  "isfinite (Fin _) = True"
| "isfinite _ = False"

text \<open>The infinity carrying the sign of an overflow, a product or a quotient.\<close>

definition signed_inf :: "bool \<Rightarrow> flt" where
  "signed_inf negative = (if negative then NInf else PInf)"

text \<open>The power of two with an integer exponent.\<close>

definition pow2 :: "int \<Rightarrow> real" where
  "pow2 e = (if 0 \<le> e then 2 ^ nat e else 1 / 2 ^ nat (- e))"

text \<open>Rounding a real number to the nearest integer, a half going to the even neighbour.\<close>

definition round_half_even :: "real \<Rightarrow> int" where
  "round_half_even r =
     (let f = \<lfloor>r\<rfloor>; d = r - of_int f
      in if d < 1 / 2 then f else if 1 / 2 < d then f + 1 else if even f then f else f + 1)"

text \<open>
  The exponent of the last bit of the significand that a non-zero number is rounded to:
  52 below the exponent of the number itself, and never below that of the smallest
  subnormal number.
\<close>

definition ulp_exponent :: "real \<Rightarrow> int" where
  "ulp_exponent x = max (- 1074) (\<lfloor>log 2 \<bar>x\<bar>\<rfloor> - 52)"

definition round64 :: "real \<Rightarrow> flt" where
  "round64 x =
     (if x = 0 then Fin 0
      else let e = ulp_exponent x;
               y = of_int (round_half_even (x / pow2 e)) * pow2 e
           in if pow2 1024 \<le> \<bar>y\<bar> then signed_inf (x < 0) else Fin y)"

text \<open>A real number is a float64 value when rounding leaves it unchanged.\<close>

definition representable :: "real \<Rightarrow> bool" where
  "representable r = (round64 r = Fin r)"

fun fneg :: "flt \<Rightarrow> flt" where
  "fneg (Fin a) = Fin (- a)"
| "fneg PInf = NInf"
| "fneg NInf = PInf"
| "fneg NaN = NaN"

fun fadd :: "flt \<Rightarrow> flt \<Rightarrow> flt" where
  "fadd (Fin a) (Fin b) = round64 (a + b)"
| "fadd NaN _ = NaN"
| "fadd _ NaN = NaN"
| "fadd PInf NInf = NaN"
| "fadd NInf PInf = NaN"
| "fadd PInf _ = PInf"
| "fadd NInf _ = NInf"
| "fadd _ PInf = PInf"
| "fadd _ NInf = NInf"

definition fsub :: "flt \<Rightarrow> flt \<Rightarrow> flt" where
  "fsub a b = fadd a (fneg b)"

fun fmul :: "flt \<Rightarrow> flt \<Rightarrow> flt" where
  "fmul (Fin a) (Fin b) = round64 (a * b)"
| "fmul NaN _ = NaN"
| "fmul _ NaN = NaN"
| "fmul (Fin a) PInf = (if a = 0 then NaN else signed_inf (a < 0))"
| "fmul (Fin a) NInf = (if a = 0 then NaN else signed_inf (0 < a))"
| "fmul PInf (Fin b) = (if b = 0 then NaN else signed_inf (b < 0))"
| "fmul NInf (Fin b) = (if b = 0 then NaN else signed_inf (0 < b))"
| "fmul PInf PInf = PInf"
| "fmul NInf NInf = PInf"
| "fmul PInf NInf = NInf"
| "fmul NInf PInf = NInf"

text \<open>
  numpy's true division: a division by zero does not raise, it gives an infinity, or
  \<open>nan\<close> for \<open>0 / 0\<close>.
\<close>

fun fdiv :: "flt \<Rightarrow> flt \<Rightarrow> flt" where
  "fdiv (Fin a) (Fin b) =
     (if b = 0 then (if a = 0 then NaN else signed_inf (a < 0)) else round64 (a / b))"
| "fdiv NaN _ = NaN"
| "fdiv _ NaN = NaN"
| "fdiv (Fin a) _ = Fin 0"
| "fdiv PInf (Fin b) = signed_inf (b < 0)"
| "fdiv NInf (Fin b) = signed_inf (0 \<le> b)"
| "fdiv _ _ = NaN"

text \<open>\<^verbatim>\<open>v ** 2\<close> and \<^verbatim>\<open>np.sqrt\<close>.\<close>

definition fsquare :: "flt \<Rightarrow> flt" where
  "fsquare a = fmul a a"

fun fsqrt :: "flt \<Rightarrow> flt" where
  "fsqrt (Fin a) = (if a < 0 then NaN else round64 (sqrt a))"
| "fsqrt PInf = PInf"
| "fsqrt NInf = NaN"
| "fsqrt NaN = NaN"

text \<open>The comparisons \<^verbatim>\<open><\<close>, \<^verbatim>\<open><=\<close> and \<^verbatim>\<open>==\<close>.\<close>

fun flt_less :: "flt \<Rightarrow> flt \<Rightarrow> bool" where
  "flt_less (Fin a) (Fin b) = (a < b)"
| "flt_less NaN _ = False"
| "flt_less _ NaN = False"
| "flt_less NInf NInf = False"
| "flt_less NInf _ = True"
| "flt_less _ NInf = False"
| "flt_less PInf _ = False"
| "flt_less _ PInf = True"

fun flt_le :: "flt \<Rightarrow> flt \<Rightarrow> bool" where
  "flt_le (Fin a) (Fin b) = (a \<le> b)"
| "flt_le NaN _ = False"
| "flt_le _ NaN = False"
| "flt_le NInf _ = True"
| "flt_le _ PInf = True"
| "flt_le _ _ = False"

definition flt_eq :: "flt \<Rightarrow> flt \<Rightarrow> bool" where
  "flt_eq a b = (a = b \<and> \<not> isnan a)"

text \<open>
  \<^verbatim>\<open>np.argmin\<close> of a one-dimensional array: it raises \<open>ValueError\<close> on an empty
  array; otherwise it scans from the left and returns the index of the first \<open>nan\<close>
  if there is one, and else the first index holding the minimum. The scan keeps the best
  index and value seen so far.
\<close>

fun argmin_scan :: "nat \<Rightarrow> flt \<Rightarrow> nat \<Rightarrow> flt list \<Rightarrow> nat" where
  "argmin_scan best v i [] = best"
| "argmin_scan best v i (d # ds) =
     (if isnan v then best
      else if isnan d \<or> flt_less d v then argmin_scan i d (Suc i) ds
      else argmin_scan best v (Suc i) ds)"

definition argmin :: "flt list \<Rightarrow> error + nat" where
  "argmin ds = (case ds of [] \<Rightarrow> Inl ValueError | d # rest \<Rightarrow> Inr (argmin_scan 0 d 1 rest))"

text \<open>
  An elementwise binary operation on two one-dimensional arrays with numpy's
  broadcasting: equal lengths pair up, an array of length one is stretched, any other
  combination raises \<open>ValueError\<close>.
\<close>

definition broadcast2 :: "('a \<Rightarrow> 'b \<Rightarrow> 'c) \<Rightarrow> 'a list \<Rightarrow> 'b list \<Rightarrow> error + 'c list" where
  "broadcast2 f xs ys =
     (if length xs = length ys then Inr (map2 f xs ys)
      else if length xs = 1 then Inr (map (f (hd xs)) ys)
      else if length ys = 1 then Inr (map (\<lambda>a. f a (hd ys)) xs)
      else Inl ValueError)"

text \<open>
  Indexing an array with a boolean mask, \<^verbatim>\<open>a[mask]\<close>: an empty mask selects nothing,
  any other mask must have the length of the array (\<open>IndexError\<close> otherwise), and the
  selected entries keep their order.
\<close>

definition mask_index :: "'a list \<Rightarrow> bool list \<Rightarrow> error + 'a list" where
  "mask_index a m =
     (if length m = 0 then Inr []
      else if length m \<noteq> length a then Inl IndexError
      else Inr (map fst (filter snd (zip a m))))"

text \<open>
  The distances \<^verbatim>\<open>np.sqrt(xd ** 2 + yd ** 2)\<close> with \<^verbatim>\<open>xd = np.array(xa) - x\<close> and
  \<^verbatim>\<open>yd = np.array(ya) - y\<close>, as \<open>find_node\<close>, \<open>nearest_point\<close> and \<open>argnearest\<close>
  compute them.
\<close>

definition hypot :: "flt \<Rightarrow> flt \<Rightarrow> flt" where
  "hypot xd yd = fsqrt (fadd (fsquare xd) (fsquare yd))"

definition distances :: "flt \<Rightarrow> flt \<Rightarrow> flt list \<Rightarrow> flt list \<Rightarrow> error + flt list" where
  "distances x y xa ya =
     broadcast2 hypot (map (\<lambda>a. fsub a x) xa) (map (\<lambda>b. fsub b y) ya)"

definition argnearest :: "flt \<Rightarrow> flt \<Rightarrow> flt list \<Rightarrow> flt list \<Rightarrow> error + nat" where
  "argnearest x y xa ya =
     (case distances x y xa ya of Inl e \<Rightarrow> Inl e | Inr d \<Rightarrow> argmin d)"

text \<open>
  Reading an entry by a non-negative index, \<^verbatim>\<open>a[i]\<close>: an index past the end raises
  \<open>IndexError\<close>.
\<close>

definition item :: "'a list \<Rightarrow> nat \<Rightarrow> error + 'a" where
  "item a i = (if i < length a then Inr (a ! i) else Inl IndexError)"

section \<open>Interval merging: \<open>util.smooth_epochs\<close>\<close>

text \<open>
  \<^verbatim>\<open>smooth_epochs\<close> receives a list of \<open>[start, end]\<close> rows. After the early return on
  an empty list it calls \<^verbatim>\<open>epochs.sort(axis=0)\<close>, which sorts each of the two columns
  on its own (the starts among themselves, the ends among themselves), and then walks
  the rows with two nested loops. The rows not yet visited (\<^verbatim>\<open>epochs[i:]\<close>) are the list
  argument of the two functions below.
\<close>

definition sort_axis0 :: "('a::linorder \<times> 'a) list \<Rightarrow> ('a \<times> 'a) list" where
  "sort_axis0 epochs = zip (sort (map fst epochs)) (sort (map snd epochs))"

text \<open>The inner loop: \<^verbatim>\<open>while (i < n) and (ub >= epochs[i,0]): ub = epochs[i,1]; i += 1\<close>.\<close>

fun extend_run :: "'a::linorder \<Rightarrow> ('a \<times> 'a) list \<Rightarrow> 'a \<times> ('a \<times> 'a) list" where
  "extend_run ub [] = (ub, [])"
| "extend_run ub ((s, e) # rest) =
     (if ub \<ge> s then extend_run e rest else (ub, (s, e) # rest))"

lemma extend_run_length: "length (snd (extend_run ub rest)) \<le> length rest"
proof (induction ub rest rule: extend_run.induct)
  case (1 ub)
  show ?case by simp
next
  case (2 ub s e rest)
  then show ?case by (cases "s \<le> ub") (simp_all add: le_SucI)
qed

text \<open>The outer loop: take \<^verbatim>\<open>lb, ub = epochs[i]\<close>, run the inner loop, append \<^verbatim>\<open>(lb, ub)\<close>.\<close>

function merge_runs :: "('a::linorder \<times> 'a) list \<Rightarrow> ('a \<times> 'a) list" where
  "merge_runs [] = []"
| "merge_runs ((lb, ub) # rest) =
     (lb, fst (extend_run ub rest)) # merge_runs (snd (extend_run ub rest))"
  by pat_completeness auto
termination
  by (relation "measure length") (auto simp: extend_run_length less_Suc_eq_le)

definition smooth_epochs :: "('a::linorder \<times> 'a) list \<Rightarrow> ('a \<times> 'a) list" where
  "smooth_epochs epochs =
     (if length epochs = 0 then epochs else merge_runs (sort_axis0 epochs))"

text \<open>
  Three notions for stating what the merge achieves: the set of positions covered by a
  list of closed intervals; the set of positions that some interval joins to what lies
  above them (the interval contains the position and does not end there); and a list
  whose intervals are well formed and lie strictly one after the other (each ends before
  the next one starts).
\<close>

definition covered :: "('a::linorder \<times> 'a) list \<Rightarrow> 'a set" where
  "covered ps = {t. \<exists>p \<in> set ps. fst p \<le> t \<and> t \<le> snd p}"

definition joined :: "('a::linorder \<times> 'a) list \<Rightarrow> 'a set" where
  "joined ps = {t. \<exists>p \<in> set ps. fst p \<le> t \<and> t < snd p}"

definition separated :: "('a::linorder \<times> 'a) list \<Rightarrow> bool" where
  "separated ps = (sorted_wrt (\<lambda>p q. snd p < fst q) ps \<and> (\<forall>p \<in> set ps. fst p \<le> snd p))"

section \<open>The point set: \<open>model.Points\<close>\<close>

text \<open>
  A \<open>Points\<close> object holds the coordinate lists \<open>x\<close> and \<open>y\<close>, the origin index and
  the exclusion intervals, each a pair of anchor points. The \<open>updated\<close> event only
  notifies observers and carries no state.
\<close>

type_synonym point = "flt \<times> flt"

type_synonym interval = "point \<times> point"

record points =
  points_x :: "flt list"
  points_y :: "flt list"
  origin :: int
  exclude :: "interval list"

subsection \<open>Path ordering: \<open>get_nodes\<close>\<close>

text \<open>
  \<^verbatim>\<open>list.pop(i)\<close>: a negative index counts from the end, an index outside the list
  raises \<open>IndexError\<close>.
\<close>

definition pop :: "int \<Rightarrow> 'a list \<Rightarrow> error + ('a \<times> 'a list)" where
  "pop i xs =
     (let n = int (length xs); j = (if i < 0 then i + n else i)
      in if 0 \<le> j \<and> j < n
         then Inr (xs ! nat j, take (nat j) xs @ drop (Suc (nat j)) xs)
         else Inl IndexError)"

lemma pop_length: "pop i xs = Inr (n, xs') \<Longrightarrow> length xs' < length xs"
  by (auto simp: pop_def Let_def split: if_splits)

text \<open>\<^verbatim>\<open>np.sqrt(np.sum((np.array(nodes) - n) ** 2, axis=1))\<close>, one distance per remaining node.\<close>

definition node_distances :: "point list \<Rightarrow> point \<Rightarrow> flt list" where
  "node_distances nodes n =
     map (\<lambda>(a, b). fsqrt (fadd (fsquare (fsub a (fst n))) (fsquare (fsub b (snd n))))) nodes"

text \<open>
  The \<^verbatim>\<open>while len(nodes) > 1\<close> loop with its three variables: the index \<open>i\<close>, the
  remaining \<open>nodes\<close> and the \<open>path\<close> built so far; after the loop the remaining nodes
  are appended.
\<close>

function nearest_neighbour_loop :: "int \<Rightarrow> point list \<Rightarrow> point list \<Rightarrow> error + point list" where
  "nearest_neighbour_loop i nodes path =
     (if length nodes > 1 then
        (case pop i nodes of
           Inl e \<Rightarrow> Inl e
         | Inr (n, rest) \<Rightarrow>
             (case argmin (node_distances rest n) of
                Inl e \<Rightarrow> Inl e
              | Inr j \<Rightarrow> nearest_neighbour_loop (int j) rest (path @ [n])))
      else Inr (path @ nodes))"
  by pat_completeness auto
termination
  by (relation "measure (\<lambda>(i, nodes, path). length nodes)")
     (auto dest: pop_length)

declare nearest_neighbour_loop.simps [simp del]

text \<open>
  \<open>get_nodes\<close> starts the loop at the origin index on \<^verbatim>\<open>list(zip(self.x, self.y))\<close>
  and returns the two coordinate sequences of the path (\<^verbatim>\<open>list(zip(*path))\<close>), or two
  empty ones for an empty path.
\<close>

definition nodes_of :: "points \<Rightarrow> point list" where
  "nodes_of p = zip (points_x p) (points_y p)"

definition get_nodes :: "points \<Rightarrow> error + (flt list \<times> flt list)" where
  "get_nodes p =
     (case nearest_neighbour_loop (origin p) (nodes_of p) [] of
        Inl e \<Rightarrow> Inl e
      | Inr path \<Rightarrow> if path \<noteq> [] then Inr (map fst path, map snd path) else Inr ([], []))"

subsection \<open>The fitted curve: \<open>interpolate\<close>, \<open>length\<close>, \<open>nearest_point\<close>\<close>

text \<open>
  The spline itself is computed by scipy (\<^verbatim>\<open>splprep\<close> and \<^verbatim>\<open>splev\<close>), which is not
  part of the repository. It is a parameter of the model: \<open>spl der nodes\<close> stands for
  \<^verbatim>\<open>splev(np.arange(0, 1 + resolution, resolution), splprep(nodes, k=degree, s=smoothing)[0], der=der)\<close>
  at the default degree, smoothing and resolution; it either raises or returns the
  samples. \<^verbatim>\<open>splev\<close> returns one array per coordinate, all of the length of the
  parameter array, so the samples are a list of points.
\<close>

type_synonym spline = "nat \<Rightarrow> flt list \<times> flt list \<Rightarrow> error + point list"

definition interpolate :: "spline \<Rightarrow> points \<Rightarrow> error + (flt list \<times> flt list)" where
  "interpolate spl p =
     (case get_nodes p of
        Inl e \<Rightarrow> Inl e
      | Inr nodes \<Rightarrow>
          if length (fst nodes) \<le> 3 then Inr ([], [])
          else (case spl 0 nodes of
                  Inl e \<Rightarrow> Inl e
                | Inr samples \<Rightarrow> Inr (map fst samples, map snd samples)))"

text \<open>\<open>length\<close> returns either the scalar \<^verbatim>\<open>np.nan\<close> or the first-derivative samples.\<close>

datatype length_result = Scalar flt | Samples "flt list" "flt list"

definition length_curve :: "spline \<Rightarrow> points \<Rightarrow> error + length_result" where
  "length_curve spl p =
     (case get_nodes p of
        Inl e \<Rightarrow> Inl e
      | Inr nodes \<Rightarrow>
          if length (fst nodes) \<le> 3 then Inr (Scalar NaN)
          else (case spl 1 nodes of
                  Inl e \<Rightarrow> Inl e
                | Inr samples \<Rightarrow> Inr (Samples (map fst samples) (map snd samples))))"

definition nearest_point :: "spline \<Rightarrow> points \<Rightarrow> flt \<Rightarrow> flt \<Rightarrow> error + point" where
  "nearest_point spl p x y =
     (case interpolate spl p of
        Inl e \<Rightarrow> Inl e
      | Inr (xi, yi) \<Rightarrow>
          (case distances x y xi yi of
             Inl e \<Rightarrow> Inl e
           | Inr d \<Rightarrow>
               (case argmin d of
                  Inl e \<Rightarrow> Inl e
                | Inr i \<Rightarrow>
                    (case item xi i of
                       Inl e \<Rightarrow> Inl e
                     | Inr a \<Rightarrow> (case item yi i of Inl e \<Rightarrow> Inl e | Inr b \<Rightarrow> Inr (a, b))))))"

subsection \<open>Exclusion intervals\<close>

definition add_exclude :: "spline \<Rightarrow> points \<Rightarrow> point \<Rightarrow> point \<Rightarrow> error + points" where
  "add_exclude spl p start stop =
     (case nearest_point spl p (fst start) (snd start) of
        Inl e \<Rightarrow> Inl e
      | Inr s \<Rightarrow>
          (case nearest_point spl p (fst stop) (snd stop) of
             Inl e \<Rightarrow> Inl e
           | Inr e \<Rightarrow> Inr (p\<lparr>exclude := exclude p @ [(s, e)]\<rparr>)))"

text \<open>
  \<open>update_exclude\<close> snaps both anchors of every interval onto the current curve again.
  The body of its loop sits in a \<^verbatim>\<open>try\<close> with a bare \<^verbatim>\<open>except: pass\<close>, so an interval
  whose anchor cannot be snapped is dropped, as is one whose anchors coincide
  (\<^verbatim>\<open>s == e\<close> on the two tuples).
\<close>

definition point_eq :: "point \<Rightarrow> point \<Rightarrow> bool" where
  "point_eq s e = (flt_eq (fst s) (fst e) \<and> flt_eq (snd s) (snd e))"

definition resnap :: "spline \<Rightarrow> points \<Rightarrow> interval \<Rightarrow> interval list" where
  "resnap spl p iv =
     (case nearest_point spl p (fst (fst iv)) (snd (fst iv)) of
        Inl _ \<Rightarrow> []
      | Inr s \<Rightarrow>
          (case nearest_point spl p (fst (snd iv)) (snd (snd iv)) of
             Inl _ \<Rightarrow> []
           | Inr e \<Rightarrow> if point_eq s e then [] else [(s, e)]))"

definition update_exclude :: "spline \<Rightarrow> points \<Rightarrow> points" where
  "update_exclude spl p = p\<lparr>exclude := concat (map (resnap spl p) (exclude p))\<rparr>"

text \<open>
  The index range of an interval on the sampled curve: both anchors are snapped with
  \<open>argnearest\<close> and the two indices are ordered.
\<close>

definition snapped_range :: "flt list \<Rightarrow> flt list \<Rightarrow> interval \<Rightarrow> error + (nat \<times> nat)" where
  "snapped_range xi yi iv =
     (case argnearest (fst (fst iv)) (snd (fst iv)) xi yi of
        Inl e \<Rightarrow> Inl e
      | Inr si \<Rightarrow>
          (case argnearest (fst (snd iv)) (snd (snd iv)) xi yi of
             Inl e \<Rightarrow> Inl e
           | Inr ei \<Rightarrow> Inr (min si ei, max si ei)))"

text \<open>
  The loop of \<open>remove_exclude\<close> over \<^verbatim>\<open>enumerate(self.exclude)\<close>: the first interval
  whose index range contains \<^verbatim>\<open>pi\<close> is popped and the loop stops.
\<close>

fun remove_first_hit :: "nat \<Rightarrow> flt list \<Rightarrow> flt list \<Rightarrow> interval list \<Rightarrow> error + interval list" where
  "remove_first_hit pidx xi yi [] = Inr []"
| "remove_first_hit pidx xi yi (iv # rest) =
     (case snapped_range xi yi iv of
        Inl e \<Rightarrow> Inl e
      | Inr (ilb, iub) \<Rightarrow>
          if ilb \<le> pidx \<and> pidx \<le> iub then Inr rest
          else (case remove_first_hit pidx xi yi rest of
                  Inl e \<Rightarrow> Inl e
                | Inr rest' \<Rightarrow> Inr (iv # rest')))"

definition remove_exclude :: "spline \<Rightarrow> points \<Rightarrow> flt \<Rightarrow> flt \<Rightarrow> error + points" where
  "remove_exclude spl p x y =
     (case interpolate spl p of
        Inl e \<Rightarrow> Inl e
      | Inr (xi, yi) \<Rightarrow>
          (case argnearest x y xi yi of
             Inl e \<Rightarrow> Inl e
           | Inr pidx \<Rightarrow>
               (case remove_first_hit pidx xi yi (exclude p) of
                  Inl e \<Rightarrow> Inl e
                | Inr ex \<Rightarrow> Inr (p\<lparr>exclude := ex\<rparr>))))"

text \<open>
  \<open>simplify_exclude\<close> collects the index ranges of all intervals, merges them with
  \<open>smooth_epochs\<close> and reads the anchors of the merged ranges back from the curve.
\<close>

fun snapped_ranges :: "flt list \<Rightarrow> flt list \<Rightarrow> interval list \<Rightarrow> error + (nat \<times> nat) list" where
  "snapped_ranges xi yi [] = Inr []"
| "snapped_ranges xi yi (iv # rest) =
     (case snapped_range xi yi iv of
        Inl e \<Rightarrow> Inl e
      | Inr r \<Rightarrow>
          (case snapped_ranges xi yi rest of
             Inl e \<Rightarrow> Inl e
           | Inr rs \<Rightarrow> Inr (r # rs)))"

definition curve_point :: "flt list \<Rightarrow> flt list \<Rightarrow> nat \<Rightarrow> error + point" where
  "curve_point xi yi i =
     (case item xi i of
        Inl e \<Rightarrow> Inl e
      | Inr a \<Rightarrow> (case item yi i of Inl e \<Rightarrow> Inl e | Inr b \<Rightarrow> Inr (a, b)))"

fun anchors :: "flt list \<Rightarrow> flt list \<Rightarrow> (nat \<times> nat) list \<Rightarrow> error + interval list" where
  "anchors xi yi [] = Inr []"
| "anchors xi yi ((si, ei) # rest) =
     (case curve_point xi yi si of
        Inl e \<Rightarrow> Inl e
      | Inr s \<Rightarrow>
          (case curve_point xi yi ei of
             Inl e \<Rightarrow> Inl e
           | Inr e \<Rightarrow>
               (case anchors xi yi rest of
                  Inl err \<Rightarrow> Inl err
                | Inr ivs \<Rightarrow> Inr ((s, e) # ivs))))"

definition simplify_exclude :: "spline \<Rightarrow> points \<Rightarrow> error + points" where
  "simplify_exclude spl p =
     (case interpolate spl p of
        Inl e \<Rightarrow> Inl e
      | Inr (xi, yi) \<Rightarrow>
          (case snapped_ranges xi yi (exclude p) of
             Inl e \<Rightarrow> Inl e
           | Inr indices \<Rightarrow>
               (case anchors xi yi (smooth_epochs indices) of
                  Inl e \<Rightarrow> Inl e
                | Inr ex \<Rightarrow> Inr (p\<lparr>exclude := ex\<rparr>))))"

text \<open>
  What the nearest curve index is. The distance from sample \<open>j\<close> of the curve to a
  point is the float64 value the program computes for it. The nearest index is the first
  index whose distance is smallest; should a distance be nan, it is the first index
  with a nan distance (as \<^verbatim>\<open>np.argmin\<close> treats nan).
\<close>

definition sample_distance :: "flt list \<Rightarrow> flt list \<Rightarrow> flt \<Rightarrow> flt \<Rightarrow> nat \<Rightarrow> flt" where
  "sample_distance xi yi x y j = hypot (fsub (xi ! j) x) (fsub (yi ! j) y)"

definition nearest_index :: "flt list \<Rightarrow> flt list \<Rightarrow> flt \<Rightarrow> flt \<Rightarrow> nat \<Rightarrow> bool" where
  "nearest_index xi yi x y k =
     (k < length xi \<and>
      (if \<exists>j < length xi. isnan (sample_distance xi yi x y j)
       then isnan (sample_distance xi yi x y k)
            \<and> (\<forall>j < k. \<not> isnan (sample_distance xi yi x y j))
       else (\<forall>j < length xi. flt_le (sample_distance xi yi x y k) (sample_distance xi yi x y j))
            \<and> (\<forall>j < k. flt_less (sample_distance xi yi x y k) (sample_distance xi yi x y j))))"

text \<open>
  An interval is hit by a curve index when the index lies between the nearest indices of
  the interval's two anchors (its snapped index range), ends included.
\<close>

definition hit :: "nat \<Rightarrow> flt list \<Rightarrow> flt list \<Rightarrow> interval \<Rightarrow> bool" where
  "hit pidx xi yi iv =
     (\<exists>si < length xi. \<exists>ei < length xi.
        nearest_index xi yi (fst (fst iv)) (snd (fst iv)) si
        \<and> nearest_index xi yi (fst (snd iv)) (snd (snd iv)) ei
        \<and> min si ei \<le> pidx \<and> pidx \<le> max si ei)"

text \<open>
  A curve index is a first occurrence when no earlier sample of the curve is the same
  point.
\<close>

definition first_occurrence :: "flt list \<Rightarrow> flt list \<Rightarrow> nat \<Rightarrow> bool" where
  "first_occurrence xi yi k =
     (k < length xi \<and> (\<forall>j < k. (xi ! j, yi ! j) \<noteq> (xi ! k, yi ! k)))"

text \<open>The anchors of an index range: the curve samples at its two ends.\<close>

definition anchor_pair :: "flt list \<Rightarrow> flt list \<Rightarrow> nat \<times> nat \<Rightarrow> interval" where
  "anchor_pair xi yi r = ((xi ! fst r, yi ! fst r), (xi ! snd r, yi ! snd r))"

text \<open>
  The samples of a curve are told apart when the program computes the distance zero
  only between samples that are the same point.
\<close>

definition told_apart :: "flt list \<Rightarrow> flt list \<Rightarrow> bool" where
  "told_apart xi yi =
     (\<forall>j < length xi. \<forall>k < length xi.
        sample_distance xi yi (xi ! k) (yi ! k) j = Fin 0 \<longrightarrow> (xi ! j, yi ! j) = (xi ! k, yi ! k))"

subsection \<open>Setting nodes and state\<close>

text \<open>
  The mask \<^verbatim>\<open>m = np.isnan(x) | np.isnan(y)\<close> and the selection \<^verbatim>\<open>x[~m]\<close>, \<^verbatim>\<open>y[~m]\<close>
  shared by \<open>set_nodes\<close> and \<open>set_state\<close>.
\<close>

definition drop_nan :: "flt list \<Rightarrow> flt list \<Rightarrow> error + (flt list \<times> flt list)" where
  "drop_nan xs ys =
     (case broadcast2 (\<lambda>a b. isnan a \<or> isnan b) xs ys of
        Inl e \<Rightarrow> Inl e
      | Inr m \<Rightarrow>
          (case mask_index xs (map Not m) of
             Inl e \<Rightarrow> Inl e
           | Inr xs' \<Rightarrow>
               (case mask_index ys (map Not m) of
                  Inl e \<Rightarrow> Inl e
                | Inr ys' \<Rightarrow> Inr (xs', ys'))))"

text \<open>
  \<open>set_nodes\<close> takes either one argument, a sequence that must unpack into exactly the
  two coordinate sequences (\<^verbatim>\<open>x, y = zip(*args)\<close> makes each a one-row array), or the two
  coordinate sequences themselves; any other number of arguments raises. With two
  arguments and an empty \<open>x\<close> both sequences are stored as they are.
\<close>

datatype node_args = One_arg "flt list list" | Two_args "flt list" "flt list" | Other_args

fun set_nodes :: "points \<Rightarrow> node_args \<Rightarrow> error + points" where
  "set_nodes p (One_arg a) =
     (case a of
        [xs, ys] \<Rightarrow>
          (case drop_nan xs ys of
             Inl e \<Rightarrow> Inl e
           | Inr (xs', ys') \<Rightarrow> Inr (p\<lparr>points_x := xs', points_y := ys'\<rparr>))
      | _ \<Rightarrow> Inl ValueError)"
| "set_nodes p (Two_args xs ys) =
     (if length xs = 0 then Inr (p\<lparr>points_x := xs, points_y := ys\<rparr>)
      else (case drop_nan xs ys of
              Inl e \<Rightarrow> Inl e
            | Inr (xs', ys') \<Rightarrow> Inr (p\<lparr>points_x := xs', points_y := ys'\<rparr>)))"
| "set_nodes p Other_args = Inl ValueError"

text \<open>
  The state dictionary: \<^verbatim>\<open>state["x"]\<close> and \<^verbatim>\<open>state["y"]\<close> raise \<open>KeyError\<close> when
  the key is missing, \<^verbatim>\<open>state.get("exclude", [])\<close> and \<^verbatim>\<open>state.get("origin", 0)\<close> fall
  back to a default.
\<close>

record state =
  state_x :: "flt list option"
  state_y :: "flt list option"
  state_origin :: "int option"
  state_exclude :: "interval list option"

definition get_state :: "points \<Rightarrow> state" where
  "get_state p =
     \<lparr>state_x = Some (points_x p), state_y = Some (points_y p),
      state_origin = Some (origin p), state_exclude = Some (exclude p)\<rparr>"

definition set_state :: "points \<Rightarrow> state \<Rightarrow> error + points" where
  "set_state p st =
     (case state_x st of
        None \<Rightarrow> Inl KeyError
      | Some xs \<Rightarrow>
          (case state_y st of
             None \<Rightarrow> Inl KeyError
           | Some ys \<Rightarrow>
               (case drop_nan xs ys of
                  Inl e \<Rightarrow> Inl e
                | Inr (xs', ys') \<Rightarrow>
                    Inr (p\<lparr>points_x := xs', points_y := ys',
                           exclude := (case state_exclude st of None \<Rightarrow> [] | Some ex \<Rightarrow> ex),
                           origin := (case state_origin st of None \<Rightarrow> 0 | Some i \<Rightarrow> i)\<rparr>))))"

subsection \<open>Adding a node\<close>

text \<open>
  \<open>find_node\<close> returns the index of the nearest node when its distance is below the
  threshold and raises \<open>ValueError\<close> otherwise; \<open>has_node\<close> turns exactly that
  exception into \<open>False\<close>.
\<close>

definition find_node :: "points \<Rightarrow> flt \<Rightarrow> flt \<Rightarrow> flt \<Rightarrow> error + nat" where
  "find_node p x y hit_threshold =
     (case distances x y (points_x p) (points_y p) of
        Inl e \<Rightarrow> Inl e
      | Inr d \<Rightarrow>
          (case argmin d of
             Inl e \<Rightarrow> Inl e
           | Inr i \<Rightarrow>
               (case item d i of
                  Inl e \<Rightarrow> Inl e
                | Inr di \<Rightarrow> if flt_less di hit_threshold then Inr i else Inl ValueError)))"

definition has_node :: "points \<Rightarrow> flt \<Rightarrow> flt \<Rightarrow> flt \<Rightarrow> error + bool" where
  "has_node p x y hit_threshold =
     (case find_node p x y hit_threshold of
        Inr i \<Rightarrow> Inr True
      | Inl e \<Rightarrow> if e = ValueError then Inr False else Inl e)"

definition add_node :: "spline \<Rightarrow> points \<Rightarrow> flt \<Rightarrow> flt \<Rightarrow> flt \<Rightarrow> error + points" where
  "add_node spl p x y hit_threshold =
     (if \<not> (isfinite x \<and> isfinite y) then Inl ValueError
      else (case has_node p x y hit_threshold of
              Inl e \<Rightarrow> Inl e
            | Inr found \<Rightarrow>
                if \<not> found
                then Inr (update_exclude spl
                       (p\<lparr>points_x := points_x p @ [x], points_y := points_y p @ [y]\<rparr>))
                else Inr p))"

section \<open>Image tiles: \<open>model.Tile\<close> and \<open>model.Piece\<close>\<close>

text \<open>
  The origin \<^verbatim>\<open>info["lower"]\<close> and the voxel size \<^verbatim>\<open>info["voxel_size"]\<close> of a tile hold
  one value per axis (x, y, z), and the extent is the list
  \<^verbatim>\<open>[xlb, xub, ylb, yub, zlb, zub]\<close>. numpy applies each arithmetic operation to the
  three axes separately; \<open>map3\<close> and \<open>map3_2\<close> are these elementwise operations and
  \<open>axis k\<close> reads the entry of one axis (0 for x, 1 for y, anything else for z).
\<close>

type_synonym 'a vec3 = "'a \<times> 'a \<times> 'a"

fun map3 :: "('a \<Rightarrow> 'b) \<Rightarrow> 'a vec3 \<Rightarrow> 'b vec3" where
  "map3 f (a, b, c) = (f a, f b, f c)"

fun map3_2 :: "('a \<Rightarrow> 'b \<Rightarrow> 'c) \<Rightarrow> 'a vec3 \<Rightarrow> 'b vec3 \<Rightarrow> 'c vec3" where
  "map3_2 f (a, b, c) (d, e, g) = (f a d, f b e, f c g)"

fun axis :: "nat \<Rightarrow> 'a vec3 \<Rightarrow> 'a" where
  "axis k (a, b, c) = (if k = 0 then a else if k = 1 then b else c)"

fun all3 :: "('a \<Rightarrow> bool) \<Rightarrow> 'a vec3 \<Rightarrow> bool" where
  "all3 P (a, b, c) = (P a \<and> P b \<and> P c)"

text \<open>\<^verbatim>\<open>extent[::2]\<close> and \<^verbatim>\<open>extent[1::2]\<close>: the lower and the upper bounds.\<close>

type_synonym extent6 = "flt \<times> flt \<times> flt \<times> flt \<times> flt \<times> flt"

fun lowers :: "extent6 \<Rightarrow> flt vec3" where
  "lowers (xlb, xub, ylb, yub, zlb, zub) = (xlb, ylb, zlb)"

fun uppers :: "extent6 \<Rightarrow> flt vec3" where
  "uppers (xlb, xub, ylb, yub, zlb, zub) = (xub, yub, zub)"

text \<open>
  A tile. Its image is a four-dimensional array (x, y, z, channel); the model keeps the
  shape of the array and leaves out the intensities, which no coordinate or extent
  depends on. The entries of \<open>info\<close> other than \<open>lower\<close> and \<open>voxel_size\<close> are kept as a
  list of keys and values.
\<close>

record 'v tile =
  info_lower :: "flt vec3"
  info_voxel_size :: "flt vec3"
  info_extra :: "(string \<times> 'v) list"
  image_shape :: "nat vec3 \<times> nat"
  extent :: extent6
  n_channels :: nat

text \<open>
  \<^verbatim>\<open>Tile.__init__\<close>: the upper bound of each axis is \<^verbatim>\<open>lb + px * v\<close>, where the pixel
  count \<open>px\<close> is an integer that the product converts to a float first.
\<close>

definition upper_bound :: "flt \<Rightarrow> nat \<Rightarrow> flt \<Rightarrow> flt" where
  "upper_bound lb px v = fadd lb (fmul (round64 (real px)) v)"

definition Tile :: "flt vec3 \<Rightarrow> flt vec3 \<Rightarrow> (string \<times> 'v) list \<Rightarrow> nat vec3 \<times> nat \<Rightarrow> 'v tile" where
  "Tile lower voxel_size extra shape =
     (case (lower, fst shape, voxel_size) of
        ((xlb, ylb, zlb), (xpx, ypx, zpx), (xv, yv, zv)) \<Rightarrow>
          \<lparr>info_lower = lower, info_voxel_size = voxel_size, info_extra = extra,
           image_shape = shape,
           extent = (xlb, upper_bound xlb xpx xv, ylb, upper_bound ylb ypx yv,
                     zlb, upper_bound zlb zpx zv),
           n_channels = snd shape\<rparr>)"

subsection \<open>Coordinate transforms\<close>

text \<open>
  \<open>to_coords\<close> and \<open>to_indices\<close> take arrays of x, y and optionally z values (here of
  floating point type). \<^verbatim>\<open>np.c_\<close> stacks them as columns and raises \<open>ValueError\<close> when
  their lengths differ; the result is transposed, one row per axis. Without \<open>z\<close> the
  third column is filled with a constant and dropped from the result.
\<close>

definition to_coords :: "'v tile \<Rightarrow> flt list \<Rightarrow> flt list \<Rightarrow> flt list option \<Rightarrow> error + flt list list" where
  "to_coords t x y z =
     (case (info_lower t, info_voxel_size t) of
        ((lx, ly, lz), (vx, vy, vz)) \<Rightarrow>
          (case z of
             None \<Rightarrow>
               if length y \<noteq> length x then Inl ValueError
               else Inr [map (\<lambda>i. fadd (fmul i vx) lx) x, map (\<lambda>j. fadd (fmul j vy) ly) y]
           | Some zs \<Rightarrow>
               if length y \<noteq> length x \<or> length zs \<noteq> length x then Inl ValueError
               else Inr [map (\<lambda>i. fadd (fmul i vx) lx) x, map (\<lambda>j. fadd (fmul j vy) ly) y,
                         map (\<lambda>k. fadd (fmul k vz) lz) zs]))"

definition to_indices :: "'v tile \<Rightarrow> flt list \<Rightarrow> flt list \<Rightarrow> flt list option \<Rightarrow> error + flt list list" where
  "to_indices t x y z =
     (case (info_lower t, info_voxel_size t) of
        ((lx, ly, lz), (vx, vy, vz)) \<Rightarrow>
          (case z of
             None \<Rightarrow>
               if length y \<noteq> length x then Inl ValueError
               else Inr [map (\<lambda>a. fdiv (fsub a lx) vx) x, map (\<lambda>b. fdiv (fsub b ly) vy) y]
           | Some zs \<Rightarrow>
               if length y \<noteq> length x \<or> length zs \<noteq> length x then Inl ValueError
               else Inr [map (\<lambda>a. fdiv (fsub a lx) vx) x, map (\<lambda>b. fdiv (fsub b ly) vy) y,
                         map (\<lambda>c. fdiv (fsub c lz) vz) zs]))"

subsection \<open>Merging the tiles of a piece\<close>

text \<open>
  \<^verbatim>\<open>np.min\<close> and \<^verbatim>\<open>np.max\<close> along the tiles: a nan among the values is the result.
\<close>

definition fmin :: "flt \<Rightarrow> flt \<Rightarrow> flt" where
  "fmin a b = (if isnan a \<or> isnan b then NaN else if flt_less b a then b else a)"

definition fmax :: "flt \<Rightarrow> flt \<Rightarrow> flt" where
  "fmax a b = (if isnan a \<or> isnan b then NaN else if flt_less a b then b else a)"

fun min_axis0 :: "flt vec3 \<Rightarrow> flt vec3 list \<Rightarrow> flt vec3" where
  "min_axis0 v [] = v"
| "min_axis0 v (w # ws) = min_axis0 (map3_2 fmin v w) ws"

fun max_axis0 :: "flt vec3 \<Rightarrow> flt vec3 list \<Rightarrow> flt vec3" where
  "max_axis0 v [] = v"
| "max_axis0 v (w # ws) = max_axis0 (map3_2 fmax v w) ws"

text \<open>\<^verbatim>\<open>np.floor\<close>, \<^verbatim>\<open>np.ceil\<close> and \<^verbatim>\<open>np.round\<close> (halves go to the even neighbour).\<close>

fun ffloor :: "flt \<Rightarrow> flt" where
  "ffloor (Fin r) = Fin (of_int \<lfloor>r\<rfloor>)"
| "ffloor a = a"

fun fceil :: "flt \<Rightarrow> flt" where
  "fceil (Fin r) = Fin (of_int \<lceil>r\<rceil>)"
| "fceil a = a"

fun fround :: "flt \<Rightarrow> flt" where
  "fround (Fin r) = Fin (of_int (round_half_even r))"
| "fround a = a"

text \<open>
  \<^verbatim>\<open>.astype("i")\<close> converts to a 32-bit integer, truncating towards zero. For nan, an
  infinity or a value outside the 32-bit range the conversion yields the smallest 32-bit
  integer (the result of the conversion instruction of x86-64 processors, which numpy
  returns unchanged). 32-bit subtraction wraps around.
\<close>

definition astype_i :: "flt \<Rightarrow> int" where
  "astype_i a =
     (case a of
        Fin r \<Rightarrow>
          (let n = (if 0 \<le> r then \<lfloor>r\<rfloor> else \<lceil>r\<rceil>)
           in if - (2 ^ 31) \<le> n \<and> n < 2 ^ 31 then n else - (2 ^ 31))
      | _ \<Rightarrow> - (2 ^ 31))"

definition wrap32 :: "int \<Rightarrow> int" where
  "wrap32 n = (n + 2 ^ 31) mod 2 ^ 32 - 2 ^ 31"

text \<open>
  The length of the slice \<^verbatim>\<open>lb:ub\<close> of an axis of \<open>n\<close> entries: a negative bound counts
  from the end, and both bounds are clipped to the axis.
\<close>

definition slice_bound :: "nat \<Rightarrow> int \<Rightarrow> int" where
  "slice_bound n b = (if b < 0 then max (b + int n) 0 else min b (int n))"

definition slice_length :: "nat \<Rightarrow> int \<Rightarrow> int \<Rightarrow> nat" where
  "slice_length n lb ub = nat (slice_bound n ub - slice_bound n lb)"

text \<open>
  The assignment \<^verbatim>\<open>merged_image[s] = tile.image\<close> of one tile: the offsets are
  \<^verbatim>\<open>np.round((tile_lb - merged_lb) / voxel_size).astype("i")\<close>, and the assignment raises
  unless, on every axis and for the channels, the tile's size is the size of the target
  block or is one (which numpy broadcasts).
\<close>

definition fits :: "nat \<Rightarrow> nat \<Rightarrow> bool" where
  "fits block px = (px = block \<or> px = 1)"

definition copy_fits :: "flt vec3 \<Rightarrow> flt vec3 \<Rightarrow> nat vec3 \<Rightarrow> nat \<Rightarrow> 'v tile \<Rightarrow> bool" where
  "copy_fits merged_lb voxel_size shape channels t =
     (let tile_lb = map3 astype_i
             (map3 fround (map3_2 fdiv (map3_2 fsub (lowers (extent t)) merged_lb) voxel_size))
      in all3 id (map3_2 fits
             (map3_2 (\<lambda>n (lb, px). slice_length n lb (lb + int px)) shape
                (map3_2 Pair tile_lb (fst (image_shape t))))
             (fst (image_shape t)))
          \<and> fits channels (snd (image_shape t)))"

text \<open>
  The check of the remaining \<open>info\<close> entries: every key of the first tile must be present
  in each other tile with the same value, otherwise the merge raises.
\<close>

definition same_extra :: "(string \<times> 'v) list \<Rightarrow> (string \<times> 'v) list \<Rightarrow> bool" where
  "same_extra base other =
     list_all (\<lambda>(k, v). map_of other k = Some v) base"

text \<open>
  \<open>merge_tiles\<close>. The result is \<open>None\<close> when the call does not return a tile: an empty
  tile list (\<^verbatim>\<open>np.vstack\<close> raises), a negative size for the merged array, a tile that
  does not fit its block, or differing \<open>info\<close> entries.
\<close>

definition merge_tiles :: "'v tile list \<Rightarrow> 'v tile option" where
  "merge_tiles tiles =
     (case tiles of
        [] \<Rightarrow> None
      | t_base # others \<Rightarrow>
          (let merged_lb = min_axis0 (lowers (extent t_base)) (map (lowers \<circ> extent) others);
               merged_ub = max_axis0 (uppers (extent t_base)) (map (uppers \<circ> extent) others);
               voxel_size = info_voxel_size t_base;
               lb_pixels = map3 astype_i (map3 ffloor (map3_2 fdiv merged_lb voxel_size));
               ub_pixels = map3 astype_i (map3 fceil (map3_2 fdiv merged_ub voxel_size));
               extent_pixels = map3_2 (\<lambda>ub lb. wrap32 (ub - lb)) ub_pixels lb_pixels
           in if \<not> all3 (\<lambda>n. 0 \<le> n) extent_pixels then None
              else if \<not> list_all (copy_fits merged_lb voxel_size
                          (map3 nat extent_pixels) (n_channels t_base)) tiles
              then None
              else if \<not> list_all (\<lambda>t. same_extra (info_extra t_base) (info_extra t)) others
              then None
              else Some (Tile merged_lb voxel_size (info_extra t_base)
                           (map3 nat extent_pixels, n_channels t_base))))"

text \<open>
  For comparison, the extent the specification describes: the union of the tile extents
  on one axis, from the smallest lower bound \<open>lb\<close> to the largest upper bound \<open>ub\<close>,
  rounded outward to whole pixels of size \<open>v\<close>.
\<close>

definition rounded_outward :: "real \<Rightarrow> real \<Rightarrow> real \<Rightarrow> flt \<times> flt" where
  "rounded_outward lb ub v = (Fin (of_int \<lfloor>lb / v\<rfloor> * v), Fin (of_int \<lceil>ub / v\<rceil> * v))"

section \<open>Properties of the interval merge\<close>

lemma covered_Nil: "covered [] = {}"
  by (simp add: covered_def)
lemma covered_Cons: "covered ((s, e) # ps) = {s..e} \<union> covered ps"
  by (auto simp: covered_def)

lemma sorted_nth_le_count:
  "sorted xs \<Longrightarrow> i < length xs \<Longrightarrow> (xs ! i \<le> t) = (i < length (filter (\<lambda>x. x \<le> t) xs))"
proof (induction xs arbitrary: i)
  case Nil then show ?case by simp
next
  case (Cons x xs)
  show ?case
  proof (cases "x \<le> t")
    case True
    with Cons show ?thesis by (cases i) auto
  next
    case False
    with Cons.prems have "\<forall>y \<in> set (x # xs). \<not> y \<le> t" by auto
    moreover have "(x # xs) ! i \<in> set (x # xs)"
      using Cons.prems(2) by (rule nth_mem)
    ultimately have "filter (\<lambda>x. x \<le> t) (x # xs) = []" "\<not> (x # xs) ! i \<le> t"
      by (auto simp: filter_empty_conv simp del: nth_Cons_Suc)
    then show ?thesis by simp
  qed
qed

lemma sorted_nth_less_count:
  "sorted xs \<Longrightarrow> i < length xs \<Longrightarrow> (xs ! i < t) = (i < length (filter (\<lambda>x. x < t) xs))"
proof (induction xs arbitrary: i)
  case Nil then show ?case by simp
next
  case (Cons x xs)
  show ?case
  proof (cases "x < t")
    case True
    with Cons show ?thesis by (cases i) auto
  next
    case False
    with Cons.prems have "\<forall>y \<in> set (x # xs). \<not> y < t" by auto
    moreover have "(x # xs) ! i \<in> set (x # xs)"
      using Cons.prems(2) by (rule nth_mem)
    ultimately have "filter (\<lambda>x. x < t) (x # xs) = []" "\<not> (x # xs) ! i < t"
      by (auto simp: filter_empty_conv simp del: nth_Cons_Suc)
    then show ?thesis by simp
  qed
qed

lemma count_sort_map:
  "length (filter P (sort (map f ps))) = length (filter (\<lambda>p. P (f p)) ps)"
proof -
  have "length (filter P (sort (map f ps))) = size (filter_mset P (mset (sort (map f ps))))"
    by (metis mset_filter size_mset)
  also have "\<dots> = size (filter_mset P (mset (map f ps)))" by simp
  also have "\<dots> = length (filter P (map f ps))" by (metis mset_filter size_mset)
  also have "\<dots> = length (filter (\<lambda>p. P (f p)) ps)"
    by (simp add: filter_map comp_def)
  finally show ?thesis .
qed

lemma count_mono:
  "(\<forall>p \<in> set ps. Q p \<longrightarrow> P p) \<Longrightarrow> length (filter Q ps) \<le> length (filter P ps)"
  by (induction ps) auto

lemma count_less_iff:
  "(\<forall>p \<in> set ps. Q p \<longrightarrow> P p) \<Longrightarrow>
     (length (filter Q ps) < length (filter P ps)) = (\<exists>p \<in> set ps. P p \<and> \<not> Q p)"
proof (induction ps)
  case Nil then show ?case by simp
next
  case (Cons p ps)
  then have le: "length (filter Q ps) \<le> length (filter P ps)" by (simp add: count_mono)
  from Cons show ?case using le by auto
qed


lemma sort_axis0_length [simp]: "length (sort_axis0 ps) = length ps"
  by (simp add: sort_axis0_def)

lemma sort_axis0_fst [simp]: "map fst (sort_axis0 ps) = sort (map fst ps)"
  by (simp add: sort_axis0_def)

lemma sort_axis0_snd [simp]: "map snd (sort_axis0 ps) = sort (map snd ps)"
  by (simp add: sort_axis0_def)

lemma sort_axis0_nth:
  "i < length ps \<Longrightarrow> sort_axis0 ps ! i = (sort (map fst ps) ! i, sort (map snd ps) ! i)"
  by (simp add: sort_axis0_def)

lemma covered_nth: "covered ps = {t. \<exists>i < length ps. fst (ps ! i) \<le> t \<and> t \<le> snd (ps ! i)}"
proof -
  have "(\<exists>p \<in> set ps. fst p \<le> t \<and> t \<le> snd p) =
        (\<exists>i < length ps. fst (ps ! i) \<le> t \<and> t \<le> snd (ps ! i))" for t
    by (metis in_set_conv_nth)
  then show ?thesis by (simp add: covered_def)
qed

lemma covered_sort_axis0:
  assumes valid: "\<forall>p \<in> set ps. fst p \<le> snd p"
  shows "covered (sort_axis0 ps) = covered ps"
proof (rule set_eqI)
  fix t
  let ?A = "length (filter (\<lambda>p. fst p \<le> t) ps)"
  let ?B = "length (filter (\<lambda>p. snd p < t) ps)"
  let ?ss = "sort (map fst ps)" and ?es = "sort (map snd ps)"
  have A: "?A \<le> length ps" and B: "?B \<le> length ps" by simp_all
  have sub: "\<forall>p \<in> set ps. snd p < t \<longrightarrow> fst p \<le> t" using valid by fastforce
  have "t \<in> covered (sort_axis0 ps) \<longleftrightarrow> (\<exists>i < length ps. ?ss ! i \<le> t \<and> \<not> ?es ! i < t)"
    by (auto simp: covered_nth sort_axis0_nth not_less)
  also have "\<dots> \<longleftrightarrow> (\<exists>i < length ps. i < ?A \<and> \<not> i < ?B)"
  proof -
    have "\<And>i. i < length ps \<Longrightarrow> (?ss ! i \<le> t) = (i < ?A)"
      using sorted_nth_le_count [of ?ss _ t] by (simp add: count_sort_map)
    moreover have "\<And>i. i < length ps \<Longrightarrow> (?es ! i < t) = (i < ?B)"
      using sorted_nth_less_count [of ?es _ t] by (simp add: count_sort_map)
    ultimately show ?thesis by auto
  qed
  also have "\<dots> \<longleftrightarrow> ?B < ?A"
  proof
    assume "\<exists>i < length ps. i < ?A \<and> \<not> i < ?B"
    then show "?B < ?A" by auto
  next
    assume "?B < ?A"
    with A have "?B < length ps \<and> ?B < ?A \<and> \<not> ?B < ?B" by linarith
    then show "\<exists>i < length ps. i < ?A \<and> \<not> i < ?B" by blast
  qed
  also have "\<dots> \<longleftrightarrow> (\<exists>p \<in> set ps. fst p \<le> t \<and> \<not> snd p < t)"
    using count_less_iff [OF sub] .
  also have "\<dots> \<longleftrightarrow> t \<in> covered ps"
    by (auto simp: covered_def not_less)
  finally show "t \<in> covered (sort_axis0 ps) \<longleftrightarrow> t \<in> covered ps" .
qed

lemma valid_sort_axis0:
  assumes valid: "\<forall>p \<in> set ps. fst p \<le> snd p"
  shows "\<forall>p \<in> set (sort_axis0 ps). fst p \<le> snd p"
proof -
  let ?ss = "sort (map fst ps)" and ?es = "sort (map snd ps)"
  have "?ss ! i \<le> ?es ! i" if i: "i < length ps" for i
  proof -
    let ?t = "?es ! i"
    have "i < length (filter (\<lambda>x. x \<le> ?t) ?es)"
      using sorted_nth_le_count [of ?es i ?t] i by simp
    then have "i < length (filter (\<lambda>p. snd p \<le> ?t) ps)" by (simp add: count_sort_map)
    also have "\<dots> \<le> length (filter (\<lambda>p. fst p \<le> ?t) ps)"
      using valid by (intro count_mono) fastforce
    finally have "i < length (filter (\<lambda>x. x \<le> ?t) ?ss)" by (simp add: count_sort_map)
    then show ?thesis using sorted_nth_le_count [of ?ss i ?t] i by simp
  qed
  then show ?thesis by (auto simp: in_set_conv_nth sort_axis0_nth)
qed


lemma extend_run_props:
  assumes "\<forall>p \<in> set rest. lb \<le> fst p" "\<forall>p \<in> set rest. ub \<le> snd p"
    "sorted (map fst rest)" "sorted (map snd rest)"
  shows "{lb..ub} \<union> covered rest = {lb..fst (extend_run ub rest)} \<union> covered (snd (extend_run ub rest))"
    and "set (snd (extend_run ub rest)) \<subseteq> set rest"
    and "sorted (map fst (snd (extend_run ub rest)))"
    and "sorted (map snd (snd (extend_run ub rest)))"
    and "ub \<le> fst (extend_run ub rest)"
    and "\<forall>p \<in> set (snd (extend_run ub rest)). fst (extend_run ub rest) < fst p"
    and "fst (extend_run ub rest) \<in> insert ub (snd ` set rest)"
  using assms
proof (induction ub rest rule: extend_run.induct)
  case (1 ub)
  { case 1 show ?case by simp }
  { case 2 show ?case by simp }
  { case 3 show ?case by simp }
  { case 4 show ?case by simp }
  { case 5 show ?case by simp }
  { case 6 show ?case by simp }
  { case 7 show ?case by simp }
next
  case (2 ub s e rest)
  { case 1 
    show ?case
    proof (cases "s \<le> ub")
      case True
      have "{lb..ub} \<union> {s..e} = {lb..e}" using True 1 by auto
      moreover have "{lb..e} \<union> covered rest = {lb..fst (extend_run e rest)} \<union> covered (snd (extend_run e rest))"
        using "2.IH"(1) [OF True] 1 by auto
      ultimately show ?thesis using True by (auto simp: covered_Cons)
    next
      case False
      then show ?thesis by simp
    qed }
  { case 2 then show ?case using "2.IH"(2) by (cases "s \<le> ub") auto }
  { case 3 then show ?case using "2.IH"(3) by (cases "s \<le> ub") auto }
  { case 4 then show ?case using "2.IH"(4) by (cases "s \<le> ub") auto }
  { case 5 then show ?case using "2.IH"(5) by (cases "s \<le> ub") (auto intro: order_trans) }
  { case 6 then show ?case using "2.IH"(6) by (cases "s \<le> ub") (auto simp: not_le intro: less_le_trans) }
  { case 7 then show ?case using "2.IH"(7) by (cases "s \<le> ub") auto }
qed


lemma merge_runs_props:
  assumes "sorted (map fst ps)" "sorted (map snd ps)"
  shows "covered (merge_runs ps) = covered ps"
    and "fst ` set (merge_runs ps) \<subseteq> fst ` set ps"
    and "snd ` set (merge_runs ps) \<subseteq> snd ` set ps"
    and "sorted_wrt (\<lambda>p q. snd p < fst q) (merge_runs ps)"
    and "(\<forall>p \<in> set ps. fst p \<le> snd p) \<longrightarrow> (\<forall>p \<in> set (merge_runs ps). fst p \<le> snd p)"
  using assms
proof (induction ps rule: merge_runs.induct)
  case 1
  { case 1 show ?case by simp }
  { case 2 show ?case by simp }
  { case 3 show ?case by simp }
  { case 4 show ?case by simp }
  { case 5 show ?case by simp }
next
  case (2 lb ub rest)
  let ?ub = "fst (extend_run ub rest)" and ?rest = "snd (extend_run ub rest)"
  { fix dummy :: nat
    assume srt: "sorted (map fst ((lb, ub) # rest))" "sorted (map snd ((lb, ub) # rest))"
    then have pre: "\<forall>p \<in> set rest. lb \<le> fst p" "\<forall>p \<in> set rest. ub \<le> snd p"
      "sorted (map fst rest)" "sorted (map snd rest)" by auto
    note E = extend_run_props [OF pre]
    note IH = "2.IH" [OF E(3) E(4)]
    have "covered (merge_runs ((lb, ub) # rest)) = covered ((lb, ub) # rest)"
      using E(1) IH(1) by (simp add: covered_Cons)
    moreover have "fst ` set (merge_runs ((lb, ub) # rest)) \<subseteq> fst ` set ((lb, ub) # rest)"
      using IH(2) E(2) by auto
    moreover have "snd ` set (merge_runs ((lb, ub) # rest)) \<subseteq> snd ` set ((lb, ub) # rest)"
      using IH(3) E(2) E(7) by auto
    moreover have "sorted_wrt (\<lambda>p q. snd p < fst q) (merge_runs ((lb, ub) # rest))"
    proof -
      have "?ub < fst q" if "q \<in> set (merge_runs ?rest)" for q
      proof -
        from that have "fst q \<in> fst ` set ?rest" using IH(2) by blast
        then obtain p where "p \<in> set ?rest" "fst p = fst q" by auto
        then show ?thesis using E(6) by metis
      qed
      then have "\<forall>q \<in> set (merge_runs ?rest). ?ub < fst q" by blast
      then show ?thesis using IH(4) by simp
    qed
    moreover have "(\<forall>p \<in> set ((lb, ub) # rest). fst p \<le> snd p) \<longrightarrow>
        (\<forall>p \<in> set (merge_runs ((lb, ub) # rest)). fst p \<le> snd p)"
      using IH(5) E(2) E(5) by (auto intro: order_trans)
    ultimately have "covered (merge_runs ((lb, ub) # rest)) = covered ((lb, ub) # rest) \<and>
       fst ` set (merge_runs ((lb, ub) # rest)) \<subseteq> fst ` set ((lb, ub) # rest) \<and>
       snd ` set (merge_runs ((lb, ub) # rest)) \<subseteq> snd ` set ((lb, ub) # rest) \<and>
       sorted_wrt (\<lambda>p q. snd p < fst q) (merge_runs ((lb, ub) # rest)) \<and>
       ((\<forall>p \<in> set ((lb, ub) # rest). fst p \<le> snd p) \<longrightarrow>
        (\<forall>p \<in> set (merge_runs ((lb, ub) # rest)). fst p \<le> snd p))" by blast }
  note all = this
  { case 1 then show ?case using all by blast }
  { case 2 then show ?case using all by blast }
  { case 3 then show ?case using all by blast }
  { case 4 then show ?case using all by blast }
  { case 5 then show ?case using all by blast }
qed

lemma separated_merge_runs_id:
  "sorted_wrt (\<lambda>p q. snd p < fst q) ps \<Longrightarrow> merge_runs ps = ps"
proof (induction ps rule: merge_runs.induct)
  case 1 show ?case by simp
next
  case (2 lb ub rest)
  have "extend_run ub rest = (ub, rest)"
    using 2(2) by (cases rest) (auto simp: not_le)
  then show ?case using 2 by simp
qed

lemma separated_sort_axis0_id:
  assumes "separated ps" shows "sort_axis0 ps = ps"
proof -
  have sw: "sorted_wrt (\<lambda>p q. snd p < fst q) ps" and v: "\<forall>p \<in> set ps. fst p \<le> snd p"
    using assms unfolding separated_def by simp_all
  have "sorted_wrt (\<lambda>p q. fst p \<le> fst q) ps"
  proof (rule sorted_wrt_mono_rel [OF _ sw])
    fix p q assume "p \<in> set ps" "q \<in> set ps" "snd p < fst q"
    then show "fst p \<le> fst q" using v by (meson less_imp_le order_trans)
  qed
  then have 1: "sorted (map fst ps)" by (simp add: sorted_wrt_map)
  have "sorted_wrt (\<lambda>p q. snd p \<le> snd q) ps"
  proof (rule sorted_wrt_mono_rel [OF _ sw])
    fix p q assume "p \<in> set ps" "q \<in> set ps" "snd p < fst q"
    then show "snd p \<le> snd q" using v by (meson less_imp_le order_trans)
  qed
  then have 2: "sorted (map snd ps)" by (simp add: sorted_wrt_map)
  show ?thesis using 1 2 by (simp add: sort_axis0_def sorted_sort_id zip_map_fst_snd)
qed

lemma smooth_epochs_separated_id: "separated ps \<Longrightarrow> smooth_epochs ps = ps"
  by (simp add: smooth_epochs_def separated_sort_axis0_id separated_merge_runs_id separated_def)

lemma smooth_epochs_separated:
  assumes valid: "\<forall>p \<in> set epochs. fst p \<le> snd p"
  shows "separated (smooth_epochs epochs)"
proof (cases "epochs = []")
  case True
  then show ?thesis by (simp add: smooth_epochs_def separated_def)
next
  case False
  have srt: "sorted (map fst (sort_axis0 epochs))" "sorted (map snd (sort_axis0 epochs))"
    by simp_all
  note M = merge_runs_props [OF srt]
  from False show ?thesis
    using M(4) M(5) valid_sort_axis0 [OF valid]
    by (simp add: smooth_epochs_def separated_def)
qed

lemma smooth_epochs_covered:
  assumes valid: "\<forall>p \<in> set epochs. fst p \<le> snd p"
  shows "covered (smooth_epochs epochs) = covered epochs"
proof -
  have srt: "sorted (map fst (sort_axis0 epochs))" "sorted (map snd (sort_axis0 epochs))"
    by simp_all
  note M = merge_runs_props [OF srt]
  show ?thesis
    using M(1) covered_sort_axis0 [OF valid] by (simp add: smooth_epochs_def)
qed

lemma smooth_epochs_bounds:
  "fst ` set (smooth_epochs ps) \<subseteq> fst ` set ps \<and> snd ` set (smooth_epochs ps) \<subseteq> snd ` set ps"
proof (cases "ps = []")
  case True
  then show ?thesis by (simp add: smooth_epochs_def)
next
  case False
  have srt: "sorted (map fst (sort_axis0 ps))" "sorted (map snd (sort_axis0 ps))"
    by simp_all
  note M = merge_runs_props [OF srt]
  have "set (map fst (sort_axis0 ps)) = set (map fst ps)"
    by (simp only: sort_axis0_fst set_sort)
  then have f: "fst ` set (sort_axis0 ps) = fst ` set ps"
    by (simp only: set_map)
  have "set (map snd (sort_axis0 ps)) = set (map snd ps)"
    by (simp only: sort_axis0_snd set_sort)
  then have s: "snd ` set (sort_axis0 ps) = snd ` set ps"
    by (simp only: set_map)
  from M(2) M(3) f s False show ?thesis by (simp add: smooth_epochs_def)
qed

lemma joined_Nil: "joined [] = {}"
  by (simp add: joined_def)

lemma joined_Cons: "joined ((s, e) # ps) = {s..<e} \<union> joined ps"
  by (auto simp: joined_def)

lemma joined_nth: "joined ps = {t. \<exists>i < length ps. fst (ps ! i) \<le> t \<and> t < snd (ps ! i)}"
proof -
  have "(\<exists>p \<in> set ps. fst p \<le> t \<and> t < snd p) =
        (\<exists>i < length ps. fst (ps ! i) \<le> t \<and> t < snd (ps ! i))" for t
    by (metis in_set_conv_nth)
  then show ?thesis by (simp add: joined_def)
qed

lemma joined_sort_axis0:
  assumes valid: "\<forall>p \<in> set ps. fst p \<le> snd p"
  shows "joined (sort_axis0 ps) = joined ps"
proof (rule set_eqI)
  fix t
  let ?A = "length (filter (\<lambda>p. fst p \<le> t) ps)"
  let ?B = "length (filter (\<lambda>p. snd p \<le> t) ps)"
  let ?ss = "sort (map fst ps)" and ?es = "sort (map snd ps)"
  have A: "?A \<le> length ps" by simp
  have sub: "\<forall>p \<in> set ps. snd p \<le> t \<longrightarrow> fst p \<le> t" using valid by fastforce
  have "t \<in> joined (sort_axis0 ps) \<longleftrightarrow> (\<exists>i < length ps. ?ss ! i \<le> t \<and> \<not> ?es ! i \<le> t)"
    by (auto simp: joined_nth sort_axis0_nth not_le)
  also have "\<dots> \<longleftrightarrow> (\<exists>i < length ps. i < ?A \<and> \<not> i < ?B)"
  proof -
    have "\<And>i. i < length ps \<Longrightarrow> (?ss ! i \<le> t) = (i < ?A)"
      using sorted_nth_le_count [of ?ss _ t] by (simp add: count_sort_map)
    moreover have "\<And>i. i < length ps \<Longrightarrow> (?es ! i \<le> t) = (i < ?B)"
      using sorted_nth_le_count [of ?es _ t] by (simp add: count_sort_map)
    ultimately show ?thesis by auto
  qed
  also have "\<dots> \<longleftrightarrow> ?B < ?A"
  proof
    assume "\<exists>i < length ps. i < ?A \<and> \<not> i < ?B"
    then show "?B < ?A" by auto
  next
    assume "?B < ?A"
    with A have "?B < length ps \<and> ?B < ?A \<and> \<not> ?B < ?B" by linarith
    then show "\<exists>i < length ps. i < ?A \<and> \<not> i < ?B" by blast
  qed
  also have "\<dots> \<longleftrightarrow> (\<exists>p \<in> set ps. fst p \<le> t \<and> \<not> snd p \<le> t)"
    using count_less_iff [OF sub] .
  also have "\<dots> \<longleftrightarrow> t \<in> joined ps"
    by (auto simp: joined_def not_le)
  finally show "t \<in> joined (sort_axis0 ps) \<longleftrightarrow> t \<in> joined ps" .
qed

lemma extend_run_joined:
  assumes "\<forall>p \<in> set rest. lb \<le> fst p" "\<forall>p \<in> set rest. ub \<le> snd p"
    "sorted (map fst rest)" "sorted (map snd rest)"
  shows "{lb..<ub} \<union> joined rest
       = {lb..<fst (extend_run ub rest)} \<union> joined (snd (extend_run ub rest))"
  using assms
proof (induction ub rest rule: extend_run.induct)
  case (1 ub)
  show ?case by simp
next
  case (2 ub s e rest)
  show ?case
  proof (cases "s \<le> ub")
    case True
    have "{lb..<ub} \<union> {s..<e} = {lb..<e}" using True 2(2,3) by auto
    moreover have "{lb..<e} \<union> joined rest
        = {lb..<fst (extend_run e rest)} \<union> joined (snd (extend_run e rest))"
      using "2.IH" [OF True] 2(2-5) by auto
    ultimately show ?thesis using True by (auto simp: joined_Cons)
  next
    case False
    then show ?thesis by simp
  qed
qed

lemma merge_runs_joined:
  assumes "sorted (map fst ps)" "sorted (map snd ps)"
  shows "joined (merge_runs ps) = joined ps"
  using assms
proof (induction ps rule: merge_runs.induct)
  case 1
  show ?case by simp
next
  case (2 lb ub rest)
  then have pre: "\<forall>p \<in> set rest. lb \<le> fst p" "\<forall>p \<in> set rest. ub \<le> snd p"
    "sorted (map fst rest)" "sorted (map snd rest)" by auto
  note E = extend_run_props [OF pre]
  from "2.IH" [OF E(3) E(4)] extend_run_joined [OF pre] show ?case
    by (simp add: joined_Cons)
qed

lemma smooth_epochs_joined:
  assumes valid: "\<forall>p \<in> set epochs. fst p \<le> snd p"
  shows "joined (smooth_epochs epochs) = joined epochs"
proof -
  have srt: "sorted (map fst (sort_axis0 epochs))" "sorted (map snd (sort_axis0 epochs))"
    by simp_all
  show ?thesis
    using merge_runs_joined [OF srt] joined_sort_axis0 [OF valid] by (simp add: smooth_epochs_def)
qed

text \<open>
  Claim C4. For every list of intervals (each with start \<open>\<le>\<close> end), \<open>smooth_epochs\<close>
  returns a list of well-formed intervals sorted so that each one ends strictly before
  the next one starts. The result covers exactly the positions the input covers, and it
  joins a position to what lies above it exactly when some input interval does: input
  ranges that overlap or touch are merged into one run, and nothing else is. In
  particular \<open>[[0,5],[3,8],[10,12]]\<close> becomes \<open>[[0,8],[10,12]]\<close>.
\<close>

theorem smooth_epochs_maximal_runs:
  fixes epochs :: "('a::linorder \<times> 'a) list"
  assumes valid: "\<forall>p \<in> set epochs. fst p \<le> snd p"
  shows "separated (smooth_epochs epochs)
       \<and> covered (smooth_epochs epochs) = covered epochs
       \<and> joined (smooth_epochs epochs) = joined epochs
       \<and> smooth_epochs [(0::int, 5), (3, 8), (10, 12)] = [(0, 8), (10, 12)]"
proof (intro conjI)
  show "separated (smooth_epochs epochs)"
    using valid by (rule smooth_epochs_separated)
  show "covered (smooth_epochs epochs) = covered epochs"
    using valid by (rule smooth_epochs_covered)
  show "joined (smooth_epochs epochs) = joined epochs"
    using valid by (rule smooth_epochs_joined)
  show "smooth_epochs [(0::int, 5), (3, 8), (10, 12)] = [(0, 8), (10, 12)]"
    by (simp add: smooth_epochs_def sort_axis0_def)
qed

theorem smooth_epochs_maximal_runs_witness:
  "list_all (\<lambda>p. fst p \<le> snd p) [(0::int, 5), (3, 8), (10, 12)]
   \<and> separated (smooth_epochs [(0::int, 5), (3, 8), (10, 12)])
   \<and> covered (smooth_epochs [(0::int, 5), (3, 8), (10, 12)]) = covered [(0, 5), (3, 8), (10, 12)]
   \<and> joined (smooth_epochs [(0::int, 5), (3, 8), (10, 12)]) = joined [(0, 5), (3, 8), (10, 12)]"
proof -
  have h: "\<forall>p \<in> set [(0::int, 5), (3, 8), (10, 12)]. fst p \<le> snd p"
    by simp
  have "list_all (\<lambda>p. fst p \<le> snd p) [(0::int, 5), (3, 8), (10, 12)]"
    by simp
  with smooth_epochs_maximal_runs [OF h] show ?thesis
    by blast
qed

section \<open>Properties of rounding\<close>

lemma pow2_powr: "pow2 e = 2 powr (of_int e)"
proof (cases "0 \<le> e")
  case True
  then have "(2::real) powr (of_int e) = 2 powr (real (nat e))" by simp
  also have "\<dots> = 2 ^ nat e" by (rule powr_realpow) simp
  finally show ?thesis using True by (simp add: pow2_def)
next
  case False
  then have "(2::real) powr (of_int e) = 2 powr (- real (nat (- e)))" by simp
  also have "\<dots> = 1 / 2 powr (real (nat (- e)))" by (simp add: powr_minus field_simps)
  also have "2 powr (real (nat (- e))) = (2::real) ^ nat (- e)" by (rule powr_realpow) simp
  finally show ?thesis using False by (simp add: pow2_def)
qed

lemma pow2_pos [simp]: "0 < pow2 e"
  by (simp add: pow2_powr)

lemma pow2_nonzero [simp]: "pow2 e \<noteq> 0"
  using pow2_pos [of e] by linarith

lemma pow2_nonneg [simp]: "0 \<le> pow2 e"
  using pow2_pos [of e] by linarith

lemma pow2_add: "pow2 (a + b) = pow2 a * pow2 b"
  by (simp add: pow2_powr powr_add)

lemma pow2_diff: "pow2 (a - b) = pow2 a / pow2 b"
  by (simp add: pow2_powr powr_diff)

lemma pow2_nat: "0 \<le> e \<Longrightarrow> pow2 e = of_int (2 ^ nat e)"
  by (simp add: pow2_def)

lemma pow2_mono: "a \<le> b \<Longrightarrow> pow2 a \<le> pow2 b"
  by (simp add: pow2_powr)

lemma pow2_less: "a < b \<Longrightarrow> pow2 a < pow2 b"
  by (simp add: pow2_powr)

lemma round_half_even_of_int [simp]: "round_half_even (of_int n) = n"
  by (simp add: round_half_even_def)

lemma round_half_even_zero [simp]: "round_half_even 0 = 0"
  by (simp add: round_half_even_def)

lemma round_half_even_nonneg: "0 \<le> r \<Longrightarrow> 0 \<le> round_half_even r"
  by (auto simp: round_half_even_def Let_def)

lemma round_half_even_eq:
  "of_int m - 1 / 2 < r \<Longrightarrow> r < of_int m + 1 / 2 \<Longrightarrow> round_half_even r = m"
proof -
  assume a: "of_int m - 1 / 2 < r" "r < of_int m + 1 / 2"
  show ?thesis
  proof (cases "of_int m \<le> r")
    case True
    then have "\<lfloor>r\<rfloor> = m" using a by (intro floor_unique) auto
    then show ?thesis using a by (simp add: round_half_even_def)
  next
    case False
    then have "\<lfloor>r\<rfloor> = m - 1" using a by (intro floor_unique) auto
    then show ?thesis using a False by (simp add: round_half_even_def)
  qed
qed

lemma floor_log2_eq:
  assumes "pow2 k \<le> x" "x < pow2 (k + 1)"
  shows "\<lfloor>log 2 x\<rfloor> = k"
proof (rule floor_unique)
  have x: "0 < x" using assms(1) pow2_pos [of k] by linarith
  have "log 2 (pow2 k) \<le> log 2 x" using assms(1) x by simp
  then show "of_int k \<le> log 2 x" by (simp add: pow2_powr)
  have "log 2 x < log 2 (pow2 (k + 1))" using assms(2) x by simp
  then show "log 2 x < of_int k + 1" by (simp add: pow2_powr)
qed

lemma ulp_exponent_eq:
  "pow2 k \<le> \<bar>x\<bar> \<Longrightarrow> \<bar>x\<bar> < pow2 (k + 1) \<Longrightarrow> ulp_exponent x = max (- 1074) (k - 52)"
  by (simp add: ulp_exponent_def floor_log2_eq)

lemma floor_log2_less:
  assumes "0 < x" "x < pow2 k"
  shows "\<lfloor>log 2 x\<rfloor> < k"
proof -
  have "log 2 x < log 2 (pow2 k)" using assms by simp
  then have "log 2 x < of_int k" by (simp add: pow2_powr)
  then show ?thesis by (simp add: floor_less_iff)
qed

lemma round64_zero [simp]: "round64 0 = Fin 0"
  by (simp add: round64_def)

lemma round64_not_nan [simp]: "\<not> isnan (round64 x)"
  by (simp add: round64_def Let_def signed_inf_def)

lemma round64_range:
  "(\<exists>y. round64 x = Fin y) \<or> (round64 x = PInf \<and> 0 < x) \<or> (round64 x = NInf \<and> x < 0)"
proof (cases "x = 0")
  case True
  then show ?thesis by simp
next
  case False
  define y where "y = of_int (round_half_even (x / pow2 (ulp_exponent x))) * pow2 (ulp_exponent x)"
  have r: "round64 x = (if pow2 1024 \<le> \<bar>y\<bar> then signed_inf (x < 0) else Fin y)"
    using False by (simp add: round64_def Let_def y_def)
  show ?thesis
  proof (cases "pow2 1024 \<le> \<bar>y\<bar>")
    case True
    with r False show ?thesis by (cases "x < 0") (simp_all add: signed_inf_def)
  next
    case False
    with r show ?thesis by simp
  qed
qed

lemma round64_nonneg:
  assumes "0 \<le> x"
  shows "round64 x = PInf \<or> (\<exists>y \<ge> 0. round64 x = Fin y)"
proof (cases "x = 0")
  case True
  then show ?thesis by simp
next
  case False
  have "0 \<le> x / pow2 (ulp_exponent x)" using assms by simp
  then have "0 \<le> round_half_even (x / pow2 (ulp_exponent x))" by (rule round_half_even_nonneg)
  then have "0 \<le> of_int (round_half_even (x / pow2 (ulp_exponent x))) * pow2 (ulp_exponent x)"
    by simp
  then show ?thesis using False assms
    by (auto simp: round64_def Let_def signed_inf_def)
qed

text \<open>A number with a significand below \<open>2^53\<close> and an exponent in range is a double.\<close>

lemma round64_dyadic:
  assumes m: "\<bar>m\<bar> < 2 ^ 53" and e: "- 1074 \<le> e" and r: "\<bar>of_int m * pow2 e\<bar> < pow2 1024"
  shows "round64 (of_int m * pow2 e) = Fin (of_int m * pow2 e)"
proof (cases "m = 0")
  case True
  then show ?thesis by simp
next
  case False
  let ?x = "of_int m * pow2 e"
  have x0: "?x \<noteq> 0" using False by simp
  have ax: "\<bar>?x\<bar> = of_int \<bar>m\<bar> * pow2 e" by (simp add: abs_mult)
  have "of_int \<bar>m\<bar> < (2::real) ^ 53" using m by (metis of_int_less_numeral_power_cancel_iff)
  then have "of_int \<bar>m\<bar> < pow2 53" by (simp add: pow2_def)
  then have "\<bar>?x\<bar> < pow2 53 * pow2 e" unfolding ax by simp
  then have "\<bar>?x\<bar> < pow2 (e + 53)" by (simp add: pow2_add mult.commute)
  moreover have "0 < \<bar>?x\<bar>" using x0 by simp
  ultimately have "\<lfloor>log 2 \<bar>?x\<bar>\<rfloor> < e + 53" by (rule floor_log2_less [rotated])
  then have le: "ulp_exponent ?x \<le> e" using e by (simp add: ulp_exponent_def)
  define E where "E = ulp_exponent ?x"
  have "?x / pow2 E = of_int m * pow2 (e - E)" by (simp add: pow2_diff)
  also have "pow2 (e - E) = of_int (2 ^ nat (e - E))" using le by (simp add: pow2_nat E_def)
  finally have "?x / pow2 E = of_int (m * 2 ^ nat (e - E))" by simp
  then have "round_half_even (?x / pow2 E) = m * 2 ^ nat (e - E)"
    by (simp only: round_half_even_of_int)
  then have "of_int (round_half_even (?x / pow2 E)) * pow2 E = of_int m * (of_int (2 ^ nat (e - E)) * pow2 E)"
    by simp
  also have "of_int (2 ^ nat (e - E)) * pow2 E = pow2 (e - E) * pow2 E"
    using le by (simp add: pow2_nat E_def)
  also have "\<dots> = pow2 e" by (simp add: pow2_add [symmetric])
  finally have y: "of_int (round_half_even (?x / pow2 E)) * pow2 E = ?x" .
  show ?thesis using x0 r y unfolding round64_def Let_def E_def [symmetric]
    by (simp add: not_le)
qed

lemma round64_of_int: "\<bar>n\<bar> < 2 ^ 53 \<Longrightarrow> round64 (of_int n) = Fin (of_int n)"
proof -
  assume n: "\<bar>n\<bar> < 2 ^ 53"
  then have "\<bar>of_int n :: real\<bar> < 2 ^ 53"
    by (metis of_int_abs of_int_less_numeral_power_cancel_iff)
  also have "(2::real) ^ 53 = pow2 53" by (simp add: pow2_def)
  also have "pow2 53 < pow2 1024" by (rule pow2_less) simp
  finally have "\<bar>of_int n * pow2 0\<bar> < pow2 1024" by (simp add: pow2_def)
  from round64_dyadic [OF n _ this] show ?thesis by (simp add: pow2_def)
qed


lemma round_half_even_error: "\<bar>of_int (round_half_even r) - r\<bar> \<le> 1 / 2"
proof -
  have "of_int \<lfloor>r\<rfloor> \<le> r" "r < of_int \<lfloor>r\<rfloor> + 1" by linarith+
  then show ?thesis by (auto simp: round_half_even_def Let_def)
qed

lemma round64_normal:
  assumes "pow2 k \<le> \<bar>x\<bar>" "\<bar>x\<bar> < pow2 (k + 1)" "- 1022 \<le> k"
  shows "round64 x =
     (if pow2 1024 \<le> \<bar>of_int (round_half_even (x / pow2 (k - 52))) * pow2 (k - 52)\<bar>
      then signed_inf (x < 0)
      else Fin (of_int (round_half_even (x / pow2 (k - 52))) * pow2 (k - 52)))"
proof -
  have "0 < \<bar>x\<bar>" using assms(1) pow2_pos [of k] by linarith
  then have x0: "x \<noteq> 0" by simp
  have "ulp_exponent x = k - 52" using ulp_exponent_eq [OF assms(1,2)] assms(3) by simp
  then show ?thesis using x0 by (simp add: round64_def Let_def)
qed

lemma round64_subnormal:
  assumes "\<bar>x\<bar> < pow2 (- 1022)"
  shows "round64 x = Fin (of_int (round_half_even (x / pow2 (- 1074))) * pow2 (- 1074))"
proof (cases "x = 0")
  case True
  then show ?thesis by simp
next
  case False
  then have pos: "0 < \<bar>x\<bar>" by simp
  from floor_log2_less [OF pos assms] have "\<lfloor>log 2 \<bar>x\<bar>\<rfloor> - 52 \<le> - 1074"
    by linarith
  then have "ulp_exponent x = - 1074"
    unfolding ulp_exponent_def by (rule max_absorb1)
  moreover have "\<bar>of_int (round_half_even (x / pow2 (- 1074))) * pow2 (- 1074)\<bar> < pow2 1024"
  proof -
    let ?r = "x / pow2 (- 1074)"
    have "\<bar>?r\<bar> < pow2 (- 1022) / pow2 (- 1074)" using assms by (simp add: divide_strict_right_mono)
    also have "\<dots> = pow2 52" by (simp add: pow2_diff [symmetric])
    finally have "\<bar>?r\<bar> < pow2 52" .
    moreover have "\<bar>of_int (round_half_even ?r)\<bar> \<le> \<bar>?r\<bar> + 1 / 2"
      using round_half_even_error [of ?r] by linarith
    moreover have "(1::real) / 2 \<le> pow2 52" by (simp add: pow2_def)
    ultimately have "\<bar>of_int (round_half_even ?r) :: real\<bar> < pow2 53"
      by (simp add: pow2_def)
    then have "\<bar>of_int (round_half_even ?r) * pow2 (- 1074)\<bar> < pow2 53 * pow2 (- 1074)"
      by (simp add: abs_mult)
    also have "\<dots> = pow2 (- 1021)" by (simp add: pow2_add [symmetric])
    also have "\<dots> < pow2 1024" by (rule pow2_less) simp
    finally show ?thesis .
  qed
  ultimately show ?thesis using False by (simp add: round64_def Let_def not_le)
qed

lemma round64_value:
  assumes b: "pow2 k \<le> \<bar>x\<bar>" "\<bar>x\<bar> < pow2 (k + 1)" and k: "- 1022 \<le> k" "k \<le> 1022"
    and m: "round_half_even (x / pow2 (k - 52)) = m"
  shows "round64 x = Fin (of_int m * pow2 (k - 52))"
proof -
  let ?r = "x / pow2 (k - 52)"
  have "\<bar>?r\<bar> = \<bar>x\<bar> / pow2 (k - 52)" by simp
  also have "\<dots> < pow2 (k + 1) / pow2 (k - 52)" using b(2) by (simp add: divide_strict_right_mono)
  also have "\<dots> = pow2 53" by (simp add: pow2_diff [symmetric])
  finally have "\<bar>?r\<bar> < pow2 53" .
  moreover have "\<bar>of_int m\<bar> \<le> \<bar>?r\<bar> + 1 / 2"
    using round_half_even_error [of ?r] unfolding m by linarith
  ultimately have "\<bar>of_int m :: real\<bar> < pow2 53 + 1 / 2" by linarith
  then have "\<bar>of_int m :: real\<bar> < of_int (2 ^ 53) + 1 / 2" by (simp add: pow2_def)
  then have "of_int \<bar>m\<bar> < (of_int (2 ^ 53 + 1) :: real)" by simp
  then have "\<bar>m\<bar> < 2 ^ 53 + 1" by (simp only: of_int_less_iff)
  then have "\<bar>m\<bar> \<le> 2 ^ 53" by simp
  then have "of_int \<bar>m\<bar> \<le> (of_int (2 ^ 53) :: real)" by (simp only: of_int_le_iff)
  then have "\<bar>of_int m :: real\<bar> \<le> pow2 53" by (simp add: pow2_def)
  then have "\<bar>of_int m * pow2 (k - 52)\<bar> \<le> pow2 53 * pow2 (k - 52)"
    by (simp add: abs_mult)
  also have "\<dots> = pow2 (53 + (k - 52))" by (simp only: pow2_add)
  also have "53 + (k - 52) = k + 1" by simp
  also have "pow2 (k + 1) < pow2 1024" using k by (intro pow2_less) simp
  finally have "\<not> pow2 1024 \<le> \<bar>of_int m * pow2 (k - 52)\<bar>" by simp
  then show ?thesis using round64_normal [OF b k(1)] m by simp
qed

text \<open>Small integers are doubles.\<close>

lemma round64_numeral:
  "(numeral k :: int) < 2 ^ 53 \<Longrightarrow> round64 (numeral k) = Fin (numeral k)"
  using round64_of_int [of "numeral k"] by simp

lemma round64_neg_numeral:
  "(numeral k :: int) < 2 ^ 53 \<Longrightarrow> round64 (- numeral k) = Fin (- numeral k)"
  using round64_of_int [of "- numeral k"] by simp

lemma round64_one: "round64 1 = Fin 1"
  using round64_of_int [of 1] by simp

lemma round64_neg_one: "round64 (- 1) = Fin (- 1)"
  using round64_of_int [of "- 1"] by simp

lemmas round64_small = round64_numeral round64_neg_numeral round64_one round64_neg_one

section \<open>Properties of the comparisons and of \<open>argmin\<close>\<close>

lemma argmin_scan_bound:
  "best < i \<Longrightarrow> argmin_scan best v i ds < i + length ds"
  by (induction best v i ds rule: argmin_scan.induct) auto

lemma argmin_bound: "argmin ds = Inr j \<Longrightarrow> j < length ds"
  using argmin_scan_bound [of 0 1] by (auto simp: argmin_def split: list.splits)

lemma argmin_nonempty: "ds \<noteq> [] \<Longrightarrow> \<exists>j. argmin ds = Inr j"
  by (cases ds) (simp_all add: argmin_def)

lemma argmin_empty: "argmin [] = Inl ValueError"
  by (simp add: argmin_def)

lemma flt_less_trans: "flt_less a b \<Longrightarrow> flt_less b c \<Longrightarrow> flt_less a c"
  by (cases a; cases b; cases c) auto

lemma flt_less_le_trans: "flt_less a b \<Longrightarrow> flt_le b c \<Longrightarrow> flt_less a c"
  by (cases a; cases b; cases c) auto

lemma flt_le_trans: "flt_le a b \<Longrightarrow> flt_le b c \<Longrightarrow> flt_le a c"
  by (cases a; cases b; cases c) auto

lemma flt_le_less_trans: "flt_le a b \<Longrightarrow> flt_less b c \<Longrightarrow> flt_less a c"
  by (cases a; cases b; cases c) auto

lemma flt_not_less: "\<not> isnan a \<Longrightarrow> \<not> isnan b \<Longrightarrow> (\<not> flt_less a b) = flt_le b a"
  by (cases a; cases b) auto

lemma flt_less_imp_le: "flt_less a b \<Longrightarrow> flt_le a b"
  by (cases a; cases b) auto

lemma flt_less_irrefl: "\<not> flt_less a a"
  by (cases a) auto

lemma flt_le_refl: "\<not> isnan a \<Longrightarrow> flt_le a a"
  by (cases a) auto

lemma flt_le_antisym: "flt_le a b \<Longrightarrow> flt_le b a \<Longrightarrow> a = b"
  by (cases a; cases b) auto

lemma flt_less_not_nan: "flt_less a b \<Longrightarrow> \<not> isnan a \<and> \<not> isnan b"
  by (cases a; cases b) auto

text \<open>Without nan the scan returns the first index of the minimum.\<close>

lemma argmin_scan_min:
  assumes "\<not> isnan v" "\<forall>d \<in> set ds. \<not> isnan d" "best < i"
  shows "(argmin_scan best v i ds = best \<and> (\<forall>d \<in> set ds. flt_le v d))
       \<or> (i \<le> argmin_scan best v i ds \<and> argmin_scan best v i ds < i + length ds
          \<and> flt_less (ds ! (argmin_scan best v i ds - i)) v
          \<and> (\<forall>d \<in> set ds. flt_le (ds ! (argmin_scan best v i ds - i)) d)
          \<and> (\<forall>j < argmin_scan best v i ds - i. flt_less (ds ! (argmin_scan best v i ds - i)) (ds ! j)))"
  using assms
proof (induction best v i ds rule: argmin_scan.induct)
  case (1 best v i)
  then show ?case by simp
next
  case (2 best v i d ds)
  have nn: "\<not> isnan d" "\<forall>d \<in> set ds. \<not> isnan d" using "2.prems" by auto
  show ?case
  proof (cases "flt_less d v")
    case True
    let ?r = "argmin_scan i d (Suc i) ds"
    have eq: "argmin_scan best v i (d # ds) = ?r" using True "2.prems" by simp
    from "2.IH"(1) [OF "2.prems"(1) _ nn(1) nn(2)] True
    consider (a) "?r = i" "\<forall>e \<in> set ds. flt_le d e"
      | (b) "Suc i \<le> ?r" "?r < Suc i + length ds" "flt_less (ds ! (?r - Suc i)) d"
          "\<forall>e \<in> set ds. flt_le (ds ! (?r - Suc i)) e"
          "\<forall>j < ?r - Suc i. flt_less (ds ! (?r - Suc i)) (ds ! j)"
      by auto
    then show ?thesis
    proof cases
      case a
      then show ?thesis using True nn unfolding eq by (simp add: flt_le_refl)
    next
      case b
      let ?m = "ds ! (?r - Suc i)"
      have idx: "(d # ds) ! (?r - i) = ?m" using b(1) by (simp add: Suc_diff_le)
      have 1: "flt_less ?m v" using b(3) True by (rule flt_less_trans)
      have 2: "\<forall>e \<in> set (d # ds). flt_le ?m e" using b(3,4) by (simp add: flt_less_imp_le)
      have 3: "flt_less ?m ((d # ds) ! j)" if "j < ?r - i" for j
      proof (cases j)
        case 0 then show ?thesis using b(3) by simp
      next
        case (Suc k)
        with that have "k < ?r - Suc i" by simp
        then show ?thesis using b(5) Suc by simp
      qed
      show ?thesis using b(1,2) 1 2 3 unfolding eq idx by simp
    qed
  next
    case False
    let ?r = "argmin_scan best v (Suc i) ds"
    have eq: "argmin_scan best v i (d # ds) = ?r" using False "2.prems" nn by simp
    have vd: "flt_le v d" using False nn "2.prems"(1) by (simp add: flt_not_less)
    have "best < Suc i" using "2.prems"(3) by simp
    from "2.IH"(2) [OF "2.prems"(1) _ "2.prems"(1) nn(2) this] False nn
    consider (a) "?r = best" "\<forall>e \<in> set ds. flt_le v e"
      | (b) "Suc i \<le> ?r" "?r < Suc i + length ds" "flt_less (ds ! (?r - Suc i)) v"
          "\<forall>e \<in> set ds. flt_le (ds ! (?r - Suc i)) e"
          "\<forall>j < ?r - Suc i. flt_less (ds ! (?r - Suc i)) (ds ! j)"
      by auto
    then show ?thesis
    proof cases
      case a
      then show ?thesis using vd unfolding eq by simp
    next
      case b
      let ?m = "ds ! (?r - Suc i)"
      have idx: "(d # ds) ! (?r - i) = ?m" using b(1) by (simp add: Suc_diff_le)
      have md: "flt_less ?m d" using b(3) vd by (rule flt_less_le_trans)
      have 2: "\<forall>e \<in> set (d # ds). flt_le ?m e" using md b(4) by (simp add: flt_less_imp_le)
      have 3: "flt_less ?m ((d # ds) ! j)" if "j < ?r - i" for j
      proof (cases j)
        case 0 then show ?thesis using md by simp
      next
        case (Suc k)
        with that have "k < ?r - Suc i" by simp
        then show ?thesis using b(5) Suc by simp
      qed
      show ?thesis using b(1,2,3) 2 3 unfolding eq idx by simp
    qed
  qed
qed


text \<open>With a nan among the entries the scan returns the index of the first one.\<close>

lemma argmin_scan_nan:
  assumes "\<not> isnan v" "\<exists>d \<in> set ds. isnan d"
  shows "i \<le> argmin_scan best v i ds \<and> argmin_scan best v i ds < i + length ds
       \<and> isnan (ds ! (argmin_scan best v i ds - i))
       \<and> (\<forall>j < argmin_scan best v i ds - i. \<not> isnan (ds ! j))"
  using assms
proof (induction best v i ds rule: argmin_scan.induct)
  case (1 best v i)
  then show ?case by simp
next
  case (2 best v i d ds)
  show ?case
  proof (cases "isnan d")
    case True
    have "argmin_scan best v i (d # ds) = i"
      using True "2.prems"(1) by (cases ds) simp_all
    then show ?thesis using True by simp
  next
    case False
    then have ex: "\<exists>e \<in> set ds. isnan e" using "2.prems"(2) by auto
    define b' v' where "b' = (if flt_less d v then i else best)"
      and "v' = (if flt_less d v then d else v)"
    let ?r = "argmin_scan b' v' (Suc i) ds"
    have eq: "argmin_scan best v i (d # ds) = ?r"
      using False "2.prems"(1) by (simp add: b'_def v'_def)
    have v': "\<not> isnan v'" using False "2.prems"(1) by (simp add: v'_def)
    have IH: "Suc i \<le> ?r \<and> ?r < Suc i + length ds \<and> isnan (ds ! (?r - Suc i))
        \<and> (\<forall>j < ?r - Suc i. \<not> isnan (ds ! j))"
    proof (cases "flt_less d v")
      case True
      from "2.IH"(1) [OF "2.prems"(1) _ False ex] True show ?thesis
        by (simp add: b'_def v'_def)
    next
      case nl: False
      from "2.IH"(2) [OF "2.prems"(1) _ "2.prems"(1) ex] False nl show ?thesis
        by (simp add: b'_def v'_def)
    qed
    have idx: "(d # ds) ! (?r - i) = ds ! (?r - Suc i)" using IH by (simp add: Suc_diff_le)
    have 3: "\<not> isnan ((d # ds) ! j)" if "j < ?r - i" for j
    proof (cases j)
      case 0 then show ?thesis using False by simp
    next
      case (Suc k)
      with that have "k < ?r - Suc i" by simp
      then show ?thesis using IH Suc by simp
    qed
    show ?thesis unfolding eq idx using IH 3 by simp
  qed
qed

lemma argmin_min:
  assumes "\<forall>d \<in> set ds. \<not> isnan d" "argmin ds = Inr i"
  shows "i < length ds" "\<forall>d \<in> set ds. flt_le (ds ! i) d" "\<forall>j < i. flt_less (ds ! i) (ds ! j)"
proof -
  from assms(2) obtain d rest where ds: "ds = d # rest" and i: "i = argmin_scan 0 d 1 rest"
    by (auto simp: argmin_def split: list.splits)
  have nn: "\<not> isnan d" "\<forall>e \<in> set rest. \<not> isnan e" using assms(1) ds by auto
  from argmin_scan_min [OF nn, of 0 1]
  consider (a) "i = 0" "\<forall>e \<in> set rest. flt_le d e"
    | (b) "1 \<le> i" "i < 1 + length rest" "flt_less (rest ! (i - 1)) d"
        "\<forall>e \<in> set rest. flt_le (rest ! (i - 1)) e"
        "\<forall>j < i - 1. flt_less (rest ! (i - 1)) (rest ! j)"
    unfolding i by auto
  then have "i < length ds \<and> (\<forall>d \<in> set ds. flt_le (ds ! i) d) \<and> (\<forall>j < i. flt_less (ds ! i) (ds ! j))"
  proof cases
    case a
    then show ?thesis using nn by (simp add: ds flt_le_refl)
  next
    case b
    obtain k where k: "i = Suc k" using b(1) by (cases i) auto
    have "flt_less (rest ! k) ((d # rest) ! j)" if "j < Suc k" for j
    proof (cases j)
      case 0 then show ?thesis using b(3) k by simp
    next
      case (Suc m) then show ?thesis using b(5) k that by simp
    qed
    then show ?thesis using b k by (simp add: ds flt_less_imp_le)
  qed
  then show "i < length ds" "\<forall>d \<in> set ds. flt_le (ds ! i) d" "\<forall>j < i. flt_less (ds ! i) (ds ! j)"
    by blast+
qed

lemma argmin_nan:
  assumes "\<exists>d \<in> set ds. isnan d" "argmin ds = Inr i"
  shows "isnan (ds ! i)" "\<forall>j < i. \<not> isnan (ds ! j)"
proof -
  from assms(2) obtain d rest where ds: "ds = d # rest" and i: "i = argmin_scan 0 d 1 rest"
    by (auto simp: argmin_def split: list.splits)
  have "isnan (ds ! i) \<and> (\<forall>j < i. \<not> isnan (ds ! j))"
  proof (cases "isnan d")
    case True
    then have "i = 0" unfolding i by (cases rest) simp_all
    then show ?thesis using True ds by simp
  next
    case False
    then have "\<exists>e \<in> set rest. isnan e" using assms(1) ds by auto
    from argmin_scan_nan [OF False this, of 1 0]
    have r: "1 \<le> i" "isnan (rest ! (i - 1))" "\<forall>j < i - 1. \<not> isnan (rest ! j)"
      unfolding i by auto
    obtain k where k: "i = Suc k" using r(1) by (cases i) auto
    have "\<not> isnan ((d # rest) ! j)" if "j < Suc k" for j
    proof (cases j)
      case 0 then show ?thesis using False by simp
    next
      case (Suc m) then show ?thesis using r(3) k that by simp
    qed
    then show ?thesis using r k by (simp add: ds)
  qed
  then show "isnan (ds ! i)" "\<forall>j < i. \<not> isnan (ds ! j)" by blast+
qed

lemma argmin_first: "argmin ds = Inr k \<Longrightarrow> j < k \<Longrightarrow> ds ! j \<noteq> ds ! k"
proof (cases "\<exists>d \<in> set ds. isnan d")
  case True
  assume "argmin ds = Inr k" "j < k"
  from argmin_nan [OF True this(1)] this(2) show ?thesis by metis
next
  case False
  assume a: "argmin ds = Inr k" "j < k"
  from False have "\<forall>d \<in> set ds. \<not> isnan d" by blast
  from argmin_min(3) [OF this a(1)] a(2) have "flt_less (ds ! k) (ds ! j)" by blast
  then show ?thesis using flt_less_irrefl by metis
qed

text \<open>Conversely, without nan, an index holding the minimum before which every entry
  differs is the one \<open>argmin\<close> returns.\<close>

lemma argmin_is:
  assumes nn: "\<forall>d \<in> set ds. \<not> isnan d" and k: "k < length ds"
    and least: "\<forall>d \<in> set ds. flt_le (ds ! k) d" and first: "\<forall>j < k. ds ! j \<noteq> ds ! k"
  shows "argmin ds = Inr k"
proof -
  from k have "ds \<noteq> []" by auto
  then obtain i where i: "argmin ds = Inr i" using argmin_nonempty by blast
  note m = argmin_min [OF nn i]
  have "flt_le (ds ! i) (ds ! k)" using m(2) k by simp
  moreover have "flt_le (ds ! k) (ds ! i)" using least m(1) by simp
  ultimately have eq: "ds ! i = ds ! k" by (rule flt_le_antisym)
  have "\<not> i < k" using first eq by metis
  moreover have "\<not> k < i" using m(3) eq flt_less_irrefl by metis
  ultimately show ?thesis using i by simp
qed

section \<open>Properties of the path ordering\<close>

lemma pop_mset: "pop i xs = Inr (n, rest) \<Longrightarrow> mset xs = add_mset n (mset rest)"
proof -
  assume a: "pop i xs = Inr (n, rest)"
  define j where "j = nat (if i < 0 then i + int (length xs) else i)"
  from a have j: "j < length xs" and n: "n = xs ! j" and r: "rest = take j xs @ drop (Suc j) xs"
    by (auto simp: pop_def Let_def j_def split: if_splits)
  have "xs = take j xs @ xs ! j # drop (Suc j) xs"
    using j by (rule id_take_nth_drop)
  then have "mset xs = mset (take j xs @ xs ! j # drop (Suc j) xs)" by simp
  then show ?thesis by (simp add: n r)
qed

lemma pop_in_range:
  "- int (length xs) \<le> i \<Longrightarrow> i < int (length xs) \<Longrightarrow> \<exists>n rest. pop i xs = Inr (n, rest)"
  by (auto simp: pop_def Let_def)

lemma pop_out_of_range:
  "\<not> (- int (length xs) \<le> i \<and> i < int (length xs)) \<Longrightarrow> pop i xs = Inl IndexError"
  by (auto simp: pop_def Let_def)

lemma node_distances_length [simp]: "length (node_distances nodes n) = length nodes"
  by (simp add: node_distances_def)

lemma loop_permutation:
  "nearest_neighbour_loop i nodes path = Inr path' \<Longrightarrow> mset path' = mset path + mset nodes"
proof (induction i nodes path rule: nearest_neighbour_loop.induct)
  case (1 i nodes path)
  show ?case
  proof (cases "length nodes > 1")
    case False
    with "1.prems" show ?thesis
      by (subst (asm) nearest_neighbour_loop.simps) auto
  next
    case True
    with "1.prems" obtain n rest j where
      p: "pop i nodes = Inr (n, rest)" and a: "argmin (node_distances rest n) = Inr j"
      and r: "nearest_neighbour_loop (int j) rest (path @ [n]) = Inr path'"
      by (subst (asm) nearest_neighbour_loop.simps) (auto split: sum.splits)
    from "1.IH" [OF True p refl a r] have "mset path' = mset (path @ [n]) + mset rest" .
    with pop_mset [OF p] show ?thesis by simp
  qed
qed

lemma loop_returns:
  "length nodes \<le> 1 \<or> (- int (length nodes) \<le> i \<and> i < int (length nodes)) \<Longrightarrow>
     \<exists>path'. nearest_neighbour_loop i nodes path = Inr path'"
proof (induction i nodes path rule: nearest_neighbour_loop.induct)
  case (1 i nodes path)
  show ?case
  proof (cases "length nodes > 1")
    case False
    then show ?thesis by (subst nearest_neighbour_loop.simps) simp
  next
    case True
    with "1.prems" obtain n rest where p: "pop i nodes = Inr (n, rest)"
      using pop_in_range [of nodes i] by auto
    from pop_mset [OF p] have "size (mset nodes) = size (add_mset n (mset rest))" by simp
    then have len: "length nodes = Suc (length rest)" by simp
    with True have "node_distances rest n \<noteq> []" by (auto simp: node_distances_def)
    then obtain j where a: "argmin (node_distances rest n) = Inr j"
      using argmin_nonempty by blast
    from argmin_bound [OF a] have "j < length rest" by simp
    then have "length rest \<le> 1 \<or> (- int (length rest) \<le> int j \<and> int j < int (length rest))"
      by simp
    from "1.IH" [OF True p refl a this] obtain path' where
      "nearest_neighbour_loop (int j) rest (path @ [n]) = Inr path'" by blast
    then show ?thesis using True p a
      by (subst nearest_neighbour_loop.simps) simp
  qed
qed

lemma loop_raises:
  "length nodes > 1 \<Longrightarrow> \<not> (- int (length nodes) \<le> i \<and> i < int (length nodes)) \<Longrightarrow>
     nearest_neighbour_loop i nodes path = Inl IndexError"
  by (subst nearest_neighbour_loop.simps) (simp add: pop_out_of_range)

lemma get_nodes_mset:
  assumes "get_nodes p = Inr (xs, ys)"
  shows "mset (zip xs ys) = mset (nodes_of p)" and "length xs = length (nodes_of p)"
    and "length ys = length (nodes_of p)"
proof -
  from assms obtain path where l: "nearest_neighbour_loop (origin p) (nodes_of p) [] = Inr path"
    and xy: "xs = map fst path" "ys = map snd path"
    by (auto simp: get_nodes_def split: sum.splits if_splits)
  from loop_permutation [OF l] have m: "mset path = mset (nodes_of p)"
    by simp
  then have "size (mset path) = size (mset (nodes_of p))"
    by simp
  then show "length xs = length (nodes_of p)" "length ys = length (nodes_of p)"
    by (simp_all add: xy)
  show "mset (zip xs ys) = mset (nodes_of p)"
    using m by (simp add: xy zip_map_fst_snd)
qed

lemma get_nodes_returns:
  assumes "length (nodes_of p) \<le> 1
    \<or> (- int (length (nodes_of p)) \<le> origin p \<and> origin p < int (length (nodes_of p)))"
  shows "\<exists>xs ys. get_nodes p = Inr (xs, ys)"
proof -
  from loop_returns [OF assms] obtain path where
    "nearest_neighbour_loop (origin p) (nodes_of p) [] = Inr path"
    by blast
  then show ?thesis
    by (simp add: get_nodes_def)
qed

text \<open>
  Claim C1. For every point set, the path returned by \<open>get_nodes\<close> is a permutation of
  the input points: it has as many points as the input and every input point appears in
  it exactly as often as in the input. With no point the path is empty, with one point it
  is that point. A path is returned whenever there are fewer than two points or the
  origin is an index of the node list (counted from the end when negative); with two or
  more points and an origin outside the list, \<^verbatim>\<open>nodes.pop(i)\<close> raises \<open>IndexError\<close> and
  no path is returned.
\<close>

theorem get_nodes_permutation:
  "(\<forall>xs ys. get_nodes p = Inr (xs, ys) \<longrightarrow>
       length xs = length (nodes_of p) \<and> length ys = length (nodes_of p)
       \<and> mset (zip xs ys) = mset (nodes_of p))
   \<and> (length (nodes_of p) \<le> 1
        \<or> (- int (length (nodes_of p)) \<le> origin p \<and> origin p < int (length (nodes_of p)))
       \<longrightarrow> (\<exists>xs ys. get_nodes p = Inr (xs, ys)))
   \<and> (nodes_of p = [] \<longrightarrow> get_nodes p = Inr ([], []))
   \<and> (\<forall>n. nodes_of p = [n] \<longrightarrow> get_nodes p = Inr ([fst n], [snd n]))
   \<and> (length (nodes_of p) > 1
        \<and> \<not> (- int (length (nodes_of p)) \<le> origin p \<and> origin p < int (length (nodes_of p)))
       \<longrightarrow> get_nodes p = Inl IndexError)"
proof (intro conjI allI impI)
  fix xs ys
  assume g: "get_nodes p = Inr (xs, ys)"
  from get_nodes_mset [OF g]
  show "length xs = length (nodes_of p)" "length ys = length (nodes_of p)"
    "mset (zip xs ys) = mset (nodes_of p)"
    by simp_all
next
  assume "length (nodes_of p) \<le> 1
    \<or> (- int (length (nodes_of p)) \<le> origin p \<and> origin p < int (length (nodes_of p)))"
  then show "\<exists>xs ys. get_nodes p = Inr (xs, ys)"
    by (rule get_nodes_returns)
next
  assume "nodes_of p = []"
  then show "get_nodes p = Inr ([], [])"
    by (simp add: get_nodes_def nearest_neighbour_loop.simps)
next
  fix n
  assume "nodes_of p = [n]"
  then show "get_nodes p = Inr ([fst n], [snd n])"
    by (simp add: get_nodes_def nearest_neighbour_loop.simps)
next
  assume "length (nodes_of p) > 1
    \<and> \<not> (- int (length (nodes_of p)) \<le> origin p \<and> origin p < int (length (nodes_of p)))"
  then show "get_nodes p = Inl IndexError"
    using loop_raises [of "nodes_of p" "origin p" "[]"] by (simp add: get_nodes_def)
qed

theorem get_nodes_permutation_witness:
  "get_nodes \<lparr>points_x = [Fin 0, Fin 5, Fin 1], points_y = [Fin 0, Fin 0, Fin 0],
      origin = 0, exclude = []\<rparr> = Inr ([Fin 0, Fin 1, Fin 5], [Fin 0, Fin 0, Fin 0])
   \<and> mset (zip [Fin 0, Fin 1, Fin 5] [Fin 0, Fin 0, Fin 0])
     = mset (nodes_of \<lparr>points_x = [Fin 0, Fin 5, Fin 1], points_y = [Fin 0, Fin 0, Fin 0],
         origin = 0, exclude = []\<rparr>)"
proof -
  let ?p = "\<lparr>points_x = [Fin 0, Fin 5, Fin 1], points_y = [Fin 0, Fin 0, Fin 0],
      origin = 0, exclude = []\<rparr>"
  have s: "sqrt 25 = 5" "sqrt 16 = 4"
    by (simp_all add: real_sqrt_unique)
  have g: "get_nodes ?p = Inr ([Fin 0, Fin 1, Fin 5], [Fin 0, Fin 0, Fin 0])"
    by (simp add: get_nodes_def nodes_of_def nearest_neighbour_loop.simps pop_def
        node_distances_def argmin_def fsub_def fsquare_def round64_small s)
  from get_nodes_permutation [of ?p] g
  have "mset (zip [Fin 0, Fin 1, Fin 5] [Fin 0, Fin 0, Fin 0]) = mset (nodes_of ?p)"
    by blast
  with g show ?thesis
    by blast
qed

section \<open>Properties of setting nodes and state\<close>

lemma mask_select_fst:
  "length xs = length ys \<Longrightarrow>
     map fst (filter snd (zip xs (map Not (map2 f xs ys))))
       = map fst (filter (\<lambda>(a, b). \<not> f a b) (zip xs ys))"
  by (induction xs ys rule: list_induct2) auto

lemma mask_select_snd:
  "length xs = length ys \<Longrightarrow>
     map fst (filter snd (zip ys (map Not (map2 f xs ys))))
       = map snd (filter (\<lambda>(a, b). \<not> f a b) (zip xs ys))"
  by (induction xs ys rule: list_induct2) auto

lemma drop_nan_equal_length:
  assumes "length xs = length ys"
  shows "drop_nan xs ys =
     Inr (map fst (filter (\<lambda>(a, b). \<not> (isnan a \<or> isnan b)) (zip xs ys)),
          map snd (filter (\<lambda>(a, b). \<not> (isnan a \<or> isnan b)) (zip xs ys)))"
proof -
  define m where "m = map2 (\<lambda>a b. isnan a \<or> isnan b) xs ys"
  define keep where "keep = filter (\<lambda>(a, b). \<not> (isnan a \<or> isnan b)) (zip xs ys)"
  have b: "broadcast2 (\<lambda>a b. isnan a \<or> isnan b) xs ys = Inr m"
    using assms by (simp add: broadcast2_def m_def)
  have len: "length m = length xs" "length m = length ys"
    using assms by (simp_all add: m_def)
  have x: "mask_index xs (map Not m) = Inr (map fst keep)"
    using len mask_select_fst [OF assms, of "\<lambda>a b. isnan a \<or> isnan b"]
    by (simp add: mask_index_def m_def keep_def)
  have y: "mask_index ys (map Not m) = Inr (map snd keep)"
    using len mask_select_snd [OF assms, of "\<lambda>a b. isnan a \<or> isnan b"]
    by (simp add: mask_index_def m_def keep_def)
  have "drop_nan xs ys = Inr (map fst keep, map snd keep)"
    by (simp add: drop_nan_def b x y)
  then show ?thesis
    by (simp add: keep_def)
qed

lemma drop_nan_no_nan:
  assumes "length xs = length ys" "\<forall>a \<in> set xs. \<not> isnan a" "\<forall>b \<in> set ys. \<not> isnan b"
  shows "drop_nan xs ys = Inr (xs, ys)"
proof -
  have "filter (\<lambda>(a, b). \<not> (isnan a \<or> isnan b)) (zip xs ys) = zip xs ys"
    using assms(2,3) by (auto simp: filter_id_conv dest: set_zip_leftD set_zip_rightD)
  then show ?thesis using assms(1) by (simp add: drop_nan_equal_length)
qed

text \<open>
  Claim C3, as amended. For coordinate lists of equal length, \<open>set_state\<close> and
  \<open>set_nodes\<close> (with the two lists as two arguments or as one) drop every pair in which a
  coordinate is nan and store exactly the other pairs, in input order. The test is
  \<^verbatim>\<open>np.isnan\<close>, so a pair with an infinite coordinate is kept. For
  \<open>x = [1, nan, 3]\<close>, \<open>y = [1, 2, nan]\<close> only \<open>(1, 1)\<close> is stored.
\<close>

theorem set_state_drops_nan:
  assumes "length xs = length ys"
  shows "(\<exists>p'. set_state p \<lparr>state_x = Some xs, state_y = Some ys,
                     state_origin = og, state_exclude = ex\<rparr> = Inr p'
            \<and> nodes_of p' = filter (\<lambda>(a, b). \<not> isnan a \<and> \<not> isnan b) (zip xs ys)
            \<and> length (points_x p') = length (points_y p'))
       \<and> (\<exists>p'. set_nodes p (Two_args xs ys) = Inr p'
            \<and> nodes_of p' = filter (\<lambda>(a, b). \<not> isnan a \<and> \<not> isnan b) (zip xs ys)
            \<and> length (points_x p') = length (points_y p'))
       \<and> set_nodes p (One_arg [xs, ys]) = set_nodes p (Two_args xs ys)
       \<and> (\<exists>p'. set_state p \<lparr>state_x = Some [Fin 1, NaN, Fin 3], state_y = Some [Fin 1, Fin 2, NaN],
                     state_origin = og, state_exclude = ex\<rparr> = Inr p'
            \<and> nodes_of p' = [(Fin 1, Fin 1)])"
proof -
  let ?keep = "filter (\<lambda>(a, b). \<not> (isnan a \<or> isnan b)) (zip xs ys)"
  have z: "zip (map fst ?keep) (map snd ?keep) = ?keep"
    by (rule zip_map_fst_snd)
  have 1: "\<exists>p'. set_state p \<lparr>state_x = Some xs, state_y = Some ys,
                     state_origin = og, state_exclude = ex\<rparr> = Inr p'
            \<and> nodes_of p' = filter (\<lambda>(a, b). \<not> isnan a \<and> \<not> isnan b) (zip xs ys)
            \<and> length (points_x p') = length (points_y p')"
    using z by (simp add: set_state_def drop_nan_equal_length [OF assms] nodes_of_def)
  have 2: "\<exists>p'. set_nodes p (Two_args xs ys) = Inr p'
            \<and> nodes_of p' = filter (\<lambda>(a, b). \<not> isnan a \<and> \<not> isnan b) (zip xs ys)
            \<and> length (points_x p') = length (points_y p')"
    using z assms by (simp add: drop_nan_equal_length [OF assms] nodes_of_def)
  have 3: "set_nodes p (One_arg [xs, ys]) = set_nodes p (Two_args xs ys)"
    using assms by (cases xs) (auto simp: drop_nan_equal_length)
  have 4: "\<exists>p'. set_state p \<lparr>state_x = Some [Fin 1, NaN, Fin 3], state_y = Some [Fin 1, Fin 2, NaN],
                     state_origin = og, state_exclude = ex\<rparr> = Inr p'
            \<and> nodes_of p' = [(Fin 1, Fin 1)]"
    by (simp add: set_state_def drop_nan_def broadcast2_def mask_index_def nodes_of_def)
  from 1 2 3 4 show ?thesis
    by blast
qed

theorem set_state_drops_nan_witness:
  "length [Fin 1, PInf, NaN] = length [NaN, Fin 2, Fin 3]
   \<and> (\<exists>p'. set_nodes \<lparr>points_x = [], points_y = [], origin = 0, exclude = []\<rparr>
              (Two_args [Fin 1, PInf, NaN] [NaN, Fin 2, Fin 3]) = Inr p'
          \<and> nodes_of p' = [(PInf, Fin 2)])"
proof -
  have h: "length [Fin 1, PInf, NaN] = length [NaN, Fin 2, Fin 3]"
    by simp
  have f: "filter (\<lambda>(a, b). \<not> isnan a \<and> \<not> isnan b) (zip [Fin 1, PInf, NaN] [NaN, Fin 2, Fin 3])
      = [(PInf, Fin 2)]"
    by simp
  from set_state_drops_nan [OF h, of "\<lparr>points_x = [], points_y = [], origin = 0, exclude = []\<rparr>"]
  obtain p' where
    "set_nodes \<lparr>points_x = [], points_y = [], origin = 0, exclude = []\<rparr>
       (Two_args [Fin 1, PInf, NaN] [NaN, Fin 2, Fin 3]) = Inr p'"
    "nodes_of p' = filter (\<lambda>(a, b). \<not> isnan a \<and> \<not> isnan b) (zip [Fin 1, PInf, NaN] [NaN, Fin 2, Fin 3])"
    by blast
  with f h show ?thesis
    by (metis (no_types))
qed

text \<open>
  The claim as stated fails on an infinite coordinate: the pair \<open>(inf, 0)\<close> is not
  finite, and \<open>set_state\<close> stores it.
\<close>

theorem set_state_keeps_infinity:
  "set_state \<lparr>points_x = [], points_y = [], origin = 0, exclude = []\<rparr>
      \<lparr>state_x = Some [PInf], state_y = Some [Fin 0], state_origin = None, state_exclude = None\<rparr>
     = Inr \<lparr>points_x = [PInf], points_y = [Fin 0], origin = 0, exclude = []\<rparr>
   \<and> \<not> isfinite PInf"
  by (simp add: set_state_def drop_nan_def broadcast2_def mask_index_def)

text \<open>
  Claim C6. For every point set whose coordinate lists have the same length and hold
  only finite values, \<open>set_state\<close> applied (to any point set) with the result of
  \<open>get_state\<close> gives the point set back: coordinates, origin and exclusion intervals.
\<close>

theorem set_state_get_state:
  assumes "length (points_x p) = length (points_y p)"
    and "list_all isfinite (points_x p)" and "list_all isfinite (points_y p)"
  shows "set_state q (get_state p) = Inr p"
proof -
  have fin: "isfinite a \<Longrightarrow> \<not> isnan a" for a
    by (cases a) simp_all
  have "\<forall>a \<in> set (points_x p). \<not> isnan a" "\<forall>b \<in> set (points_y p). \<not> isnan b"
    using assms(2,3) fin by (auto simp: list_all_iff)
  from drop_nan_no_nan [OF assms(1) this] show ?thesis
    by (simp add: set_state_def get_state_def)
qed

theorem set_state_get_state_witness:
  "set_state \<lparr>points_x = [NaN], points_y = [], origin = 7, exclude = []\<rparr>
     (get_state \<lparr>points_x = [Fin 1, Fin 2], points_y = [Fin 3, Fin 4], origin = 1,
        exclude = [((Fin 1, Fin 3), (Fin 2, Fin 4))]\<rparr>)
   = Inr \<lparr>points_x = [Fin 1, Fin 2], points_y = [Fin 3, Fin 4], origin = 1,
        exclude = [((Fin 1, Fin 3), (Fin 2, Fin 4))]\<rparr>"
  by (rule set_state_get_state) simp_all

section \<open>Properties of the distance search\<close>

lemma isfinite_iff: "isfinite a = (\<exists>r. a = Fin r)"
  by (cases a) simp_all

lemma distances_equal_length:
  "length xa = length ya \<Longrightarrow>
     distances x y xa ya = Inr (map (\<lambda>n. hypot (fsub (fst n) x) (fsub (snd n) y)) (zip xa ya))"
  by (simp add: distances_def broadcast2_def zip_map_map case_prod_beta)

lemma update_exclude_fields [simp]:
  "points_x (update_exclude spl q) = points_x q"
  "points_y (update_exclude spl q) = points_y q"
  "origin (update_exclude spl q) = origin q"
  by (simp_all add: update_exclude_def)

text \<open>
  The computed distance to a finite point is never nan and never negative, whatever the
  other point is, as long as it is not nan itself.
\<close>

lemma round64_nonneg_le: "0 \<le> x \<Longrightarrow> flt_le (Fin 0) (round64 x)"
  using round64_nonneg [of x] by auto

lemma fsub_not_nan: "\<not> isnan a \<Longrightarrow> \<not> isnan (fsub a (Fin x))"
  by (cases a) (simp_all add: fsub_def)

lemma fsquare_nonneg: "\<not> isnan v \<Longrightarrow> flt_le (Fin 0) (fsquare v)"
  by (cases v) (simp_all add: fsquare_def round64_nonneg_le)

lemma fadd_nonneg: "flt_le (Fin 0) a \<Longrightarrow> flt_le (Fin 0) b \<Longrightarrow> flt_le (Fin 0) (fadd a b)"
  by (cases a; cases b) (simp_all add: round64_nonneg_le)

lemma fsqrt_nonneg: "flt_le (Fin 0) a \<Longrightarrow> flt_le (Fin 0) (fsqrt a)"
  by (cases a) (simp_all add: round64_nonneg_le)

lemma hypot_nonneg:
  "\<not> isnan a \<Longrightarrow> \<not> isnan b \<Longrightarrow> flt_le (Fin 0) (hypot (fsub a (Fin x)) (fsub b (Fin y)))"
  unfolding hypot_def
  by (intro fsqrt_nonneg fadd_nonneg fsquare_nonneg fsub_not_nan)

lemma flt_le_not_nan: "flt_le a b \<Longrightarrow> \<not> isnan b"
  by (cases a; cases b) auto

lemma hypot_self: "hypot (fsub (Fin a) (Fin a)) (fsub (Fin b) (Fin b)) = Fin 0"
  by (simp add: hypot_def fsub_def fsquare_def)

text \<open>The double nearest to the square root of two lies just above it.\<close>

lemma sqrt_2_below: "sqrt 2 < 6369051672525773 / 4503599627370496"
  by (rule real_less_lsqrt) (simp_all add: power2_eq_square)

lemma sqrt_2_bounds:
  "12738103345051545 / 9007199254740992 < sqrt 2" "sqrt 2 < 12738103345051547 / 9007199254740992"
  by (rule real_less_rsqrt, simp add: power2_eq_square)
     (rule real_less_lsqrt, simp_all add: power2_eq_square)

lemma round64_sqrt_2: "round64 (sqrt 2) = Fin (6369051672525773 / 4503599627370496)"
proof -
  have b: "pow2 0 \<le> \<bar>sqrt 2\<bar>" "\<bar>sqrt 2\<bar> < pow2 (0 + 1)"
    using sqrt_2_bounds by (simp_all add: pow2_def)
  have lo: "of_int 6369051672525773 - 1 / 2 < sqrt 2 / pow2 (0 - 52)"
    using sqrt_2_bounds(1) by (simp add: pow2_def field_simps)
  have hi: "sqrt 2 / pow2 (0 - 52) < of_int 6369051672525773 + 1 / 2"
    using sqrt_2_bounds(2) by (simp add: pow2_def field_simps)
  have r: "round_half_even (sqrt 2 / pow2 (0 - 52)) = 6369051672525773"
    using lo hi by (rule round_half_even_eq)
  from round64_value [OF b _ _ r] show ?thesis
    by (simp add: pow2_def)
qed

subsection \<open>Distances between very small coordinates\<close>

lemma round64_units:
  assumes "\<bar>r\<bar> < 2 ^ 52"
  shows "round64 (r * pow2 (- 1074)) = Fin (of_int (round_half_even r) * pow2 (- 1074))"
proof -
  have "\<bar>r * pow2 (- 1074)\<bar> = \<bar>r\<bar> * pow2 (- 1074)" by (simp add: abs_mult)
  also have "\<dots> < 2 ^ 52 * pow2 (- 1074)" using assms by simp
  also have "\<dots> = pow2 52 * pow2 (- 1074)" by (simp add: pow2_def)
  also have "\<dots> = pow2 (- 1022)" using pow2_add [of 52 "- 1074"] by simp
  finally have "\<bar>r * pow2 (- 1074)\<bar> < pow2 (- 1022)" .
  from round64_subnormal [OF this] show ?thesis by simp
qed

lemma round64_tiny:
  assumes "\<bar>m\<bar> < 2 ^ 53"
  shows "round64 (of_int m * pow2 (- 541)) = Fin (of_int m * pow2 (- 541))"
proof (rule round64_dyadic [OF assms])
  show "- 1074 \<le> (- 541 :: int)" by simp
  have "\<bar>of_int m :: real\<bar> < 2 ^ 53" using assms by (metis of_int_abs of_int_less_numeral_power_cancel_iff)
  then have "\<bar>of_int m * pow2 (- 541)\<bar> < 2 ^ 53 * pow2 (- 541)" by (simp add: abs_mult)
  also have "\<dots> = pow2 53 * pow2 (- 541)" by (simp add: pow2_def)
  also have "\<dots> = pow2 (- 488)" using pow2_add [of 53 "- 541"] by simp
  also have "\<dots> < pow2 1024" by (rule pow2_less) simp
  finally show "\<bar>of_int m * pow2 (- 541)\<bar> < pow2 1024" .
qed

lemma pow2_tiny_square: "pow2 (- 541) * pow2 (- 541) = pow2 (- 1074) / 256"
proof -
  have "pow2 (- 541) * pow2 (- 541) = pow2 (- 1082)" using pow2_add [of "- 541" "- 541"] by simp
  also have "\<dots> = pow2 (- 1074) * pow2 (- 8)" using pow2_add [of "- 1074" "- 8"] by simp
  also have "pow2 (- 8) = 1 / 256" by (simp add: pow2_def)
  finally show ?thesis by simp
qed

text \<open>
  The distance computed between two points whose coordinates are small multiples of
  \<open>pow2 (- 541)\<close>: the squares of the differences are subnormal and are rounded to whole
  multiples of \<open>pow2 (- 1074)\<close>.
\<close>

lemma hypot_tiny:
  fixes a b x y :: int
  assumes dx: "\<bar>a - x\<bar> < 2 ^ 26" and dy: "\<bar>b - y\<bar> < 2 ^ 26"
    and m: "round_half_even (of_int ((a - x) * (a - x)) / 256) = m"
    and n: "round_half_even (of_int ((b - y) * (b - y)) / 256) = n"
    and mn: "\<bar>m + n\<bar> < 2 ^ 52"
    and r: "0 \<le> r" "r * r = of_int (m + n) * pow2 (- 1074)"
  shows "hypot (fsub (Fin (of_int a * pow2 (- 541))) (Fin (of_int x * pow2 (- 541))))
               (fsub (Fin (of_int b * pow2 (- 541))) (Fin (of_int y * pow2 (- 541))))
         = round64 r"
proof -
  have sub: "fsub (Fin (of_int c * pow2 (- 541))) (Fin (of_int z * pow2 (- 541)))
      = Fin (of_int (c - z) * pow2 (- 541))" if "\<bar>c - z\<bar> < 2 ^ 26" for c z :: int
  proof -
    have "\<bar>c - z\<bar> < 2 ^ 53" using that by simp
    from round64_tiny [OF this] show ?thesis
      by (simp add: fsub_def algebra_simps)
  qed
  have sq: "fsquare (Fin (of_int d * pow2 (- 541)))
      = Fin (of_int (round_half_even (of_int (d * d) / 256)) * pow2 (- 1074))"
    if "\<bar>d\<bar> < 2 ^ 26" for d :: int
  proof -
    have "\<bar>d\<bar> * \<bar>d\<bar> < 2 ^ 26 * 2 ^ 26"
      using that by (intro mult_strict_mono) simp_all
    then have "\<bar>d * d\<bar> < 2 ^ 52" by (simp add: abs_mult)
    then have "\<bar>of_int (d * d) :: real\<bar> < 2 ^ 52"
      by (metis of_int_abs of_int_less_numeral_power_cancel_iff)
    then have "\<bar>of_int (d * d) / 256 :: real\<bar> < 2 ^ 52" by simp
    from round64_units [OF this]
    have u: "round64 (of_int (d * d) / 256 * pow2 (- 1074))
      = Fin (of_int (round_half_even (of_int (d * d) / 256)) * pow2 (- 1074))" .
    have "of_int d * pow2 (- 541) * (of_int d * pow2 (- 541))
      = of_int d * of_int d * (pow2 (- 541) * pow2 (- 541))"
      by (simp only: mult_ac)
    also have "\<dots> = of_int (d * d) / 256 * pow2 (- 1074)"
      by (simp only: pow2_tiny_square of_int_mult times_divide_eq_right times_divide_eq_left)
    finally have e: "of_int d * pow2 (- 541) * (of_int d * pow2 (- 541))
      = of_int (d * d) / 256 * pow2 (- 1074)" .
    show ?thesis unfolding fsquare_def fmul.simps e u ..
  qed
  have "\<bar>of_int (m + n) :: real\<bar> < 2 ^ 52"
    using mn by (metis of_int_abs of_int_less_numeral_power_cancel_iff)
  from round64_units [OF this]
  have "round64 (of_int (m + n) * pow2 (- 1074)) = Fin (of_int (m + n) * pow2 (- 1074))"
    by (simp only: round_half_even_of_int)
  moreover have "of_int m * pow2 (- 1074) + of_int n * pow2 (- 1074)
      = of_int (m + n) * pow2 (- 1074)"
    by (simp add: distrib_right)
  ultimately have add: "fadd (Fin (of_int m * pow2 (- 1074))) (Fin (of_int n * pow2 (- 1074)))
      = Fin (of_int (m + n) * pow2 (- 1074))"
    by (simp only: fadd.simps)
  have "0 \<le> of_int (m + n) * pow2 (- 1074)" using r(2) [symmetric] by simp
  moreover have "sqrt (of_int (m + n) * pow2 (- 1074)) = r"
    using r by (intro real_sqrt_unique) (simp_all add: power2_eq_square)
  ultimately have "fsqrt (Fin (of_int (m + n) * pow2 (- 1074))) = round64 r" by simp
  then show ?thesis
    unfolding hypot_def sub [OF dx] sub [OF dy] sq [OF dx] sq [OF dy] m n add .
qed

text \<open>
  Claim C10, as amended. For every point set (coordinate lists of equal length without
  nan) and every finite point \<open>(x, y)\<close>: if for some node the distance to \<open>(x, y)\<close> as
  the program computes it in float64 (differences, squares, sum and square root, each
  rounded) is strictly below \<open>hit_threshold\<close>, \<open>add_node\<close> returns the point set
  unchanged; otherwise it appends \<open>(x, y)\<close> as a new node and leaves the origin as it is.
\<close>

theorem add_node_hit_threshold:
  assumes len: "length (points_x p) = length (points_y p)"
    and nx: "list_all (\<lambda>a. \<not> isnan a) (points_x p)"
    and ny: "list_all (\<lambda>b. \<not> isnan b) (points_y p)"
    and fin: "isfinite x" "isfinite y"
  shows "((\<exists>n \<in> set (nodes_of p). flt_less (hypot (fsub (fst n) x) (fsub (snd n) y)) hit_threshold)
            \<longrightarrow> add_node spl p x y hit_threshold = Inr p)
       \<and> (\<not> (\<exists>n \<in> set (nodes_of p). flt_less (hypot (fsub (fst n) x) (fsub (snd n) y)) hit_threshold)
            \<longrightarrow> (\<exists>p'. add_node spl p x y hit_threshold = Inr p'
                   \<and> points_x p' = points_x p @ [x] \<and> points_y p' = points_y p @ [y]
                   \<and> origin p' = origin p))"
proof -
  let ?dist = "\<lambda>n. hypot (fsub (fst n) x) (fsub (snd n) y)"
  let ?d = "map ?dist (nodes_of p)"
  let ?near = "\<exists>n \<in> set (nodes_of p). flt_less (?dist n) hit_threshold"
  obtain rx ry where xy: "x = Fin rx" "y = Fin ry"
    using fin by (auto simp: isfinite_iff)
  have D: "distances x y (points_x p) (points_y p) = Inr ?d"
    using len by (simp add: distances_equal_length nodes_of_def)
  have nonneg: "flt_le (Fin 0) (?dist n)" if "n \<in> set (nodes_of p)" for n
  proof -
    obtain u v where n: "n = (u, v)" by (cases n)
    from that have "(u, v) \<in> set (zip (points_x p) (points_y p))"
      by (simp add: nodes_of_def n)
    then have "u \<in> set (points_x p)" "v \<in> set (points_y p)"
      by (auto dest: set_zip_leftD set_zip_rightD)
    then have "\<not> isnan u" "\<not> isnan v"
      using nx ny by (auto simp: list_all_iff)
    then show ?thesis unfolding n xy by (simp add: hypot_nonneg)
  qed
  have nn: "\<forall>v \<in> set ?d. \<not> isnan v"
    using nonneg flt_le_not_nan by fastforce
  have has: "has_node p x y hit_threshold = Inr ?near"
  proof (cases "nodes_of p = []")
    case True
    then show ?thesis by (simp add: has_node_def find_node_def D argmin_def)
  next
    case False
    then have "?d \<noteq> []" by simp
    then obtain i where i: "argmin ?d = Inr i" using argmin_nonempty by blast
    note m = argmin_min [OF nn i]
    from m(1) have il: "i < length (nodes_of p)" by simp
    have di: "?d ! i = ?dist (nodes_of p ! i)" using il by simp
    have "flt_less (?d ! i) hit_threshold = ?near"
    proof
      assume "flt_less (?d ! i) hit_threshold"
      then have "flt_less (?dist (nodes_of p ! i)) hit_threshold" by (simp only: di)
      moreover have "nodes_of p ! i \<in> set (nodes_of p)" using il by (rule nth_mem)
      ultimately show ?near by blast
    next
      assume ?near
      then obtain n where n: "n \<in> set (nodes_of p)"
        and lt: "flt_less (?dist n) hit_threshold" by blast
      from n have "?dist n \<in> set ?d" unfolding set_map by (rule imageI)
      with m(2) have "flt_le (?d ! i) (?dist n)" by blast
      then show "flt_less (?d ! i) hit_threshold" using lt by (rule flt_le_less_trans)
    qed
    then show ?thesis using m(1)
      by (simp add: has_node_def find_node_def D i item_def)
  qed
  show ?thesis
    using fin by (simp add: add_node_def has)
qed

theorem add_node_hit_threshold_witness:
  "add_node (\<lambda>der nodes. Inl ValueError)
      \<lparr>points_x = [Fin 0], points_y = [Fin 0], origin = 0, exclude = []\<rparr> (Fin 3) (Fin 4) (Fin 25)
     = Inr \<lparr>points_x = [Fin 0], points_y = [Fin 0], origin = 0, exclude = []\<rparr>
   \<and> (\<exists>p'. add_node (\<lambda>der nodes. Inl ValueError)
         \<lparr>points_x = [Fin 0], points_y = [Fin 0], origin = 0, exclude = []\<rparr> (Fin 30) (Fin 40) (Fin 25)
        = Inr p' \<and> points_x p' = [Fin 0, Fin 30] \<and> points_y p' = [Fin 0, Fin 40])"
proof -
  let ?p = "\<lparr>points_x = [Fin 0], points_y = [Fin 0], origin = 0, exclude = []\<rparr>"
  have h: "length (points_x ?p) = length (points_y ?p)"
    "list_all (\<lambda>a. \<not> isnan a) (points_x ?p)" "list_all (\<lambda>b. \<not> isnan b) (points_y ?p)"
    by simp_all
  have f: "isfinite (Fin 3)" "isfinite (Fin 4)" "isfinite (Fin 30)" "isfinite (Fin 40)"
    by simp_all
  have s: "sqrt 25 = 5" "sqrt 2500 = 50"
    by (simp_all add: real_sqrt_unique)
  have d1: "hypot (fsub (Fin 0) (Fin 3)) (fsub (Fin 0) (Fin 4)) = Fin 5"
    by (simp add: hypot_def fsub_def fsquare_def round64_small s)
  have d2: "hypot (fsub (Fin 0) (Fin 30)) (fsub (Fin 0) (Fin 40)) = Fin 50"
    by (simp add: hypot_def fsub_def fsquare_def round64_small s)
  have near: "\<exists>n \<in> set (nodes_of ?p). flt_less (hypot (fsub (fst n) (Fin 3)) (fsub (snd n) (Fin 4))) (Fin 25)"
    by (simp add: nodes_of_def d1)
  have far: "\<not> (\<exists>n \<in> set (nodes_of ?p). flt_less (hypot (fsub (fst n) (Fin 30)) (fsub (snd n) (Fin 40))) (Fin 25))"
    by (simp add: nodes_of_def d2)
  from add_node_hit_threshold [OF h f(1,2)] near
  have 1: "add_node (\<lambda>der nodes. Inl ValueError) ?p (Fin 3) (Fin 4) (Fin 25) = Inr ?p"
    by blast
  from add_node_hit_threshold [OF h f(3,4), of "Fin 25" "\<lambda>der nodes. Inl ValueError"] far
  have 2: "\<exists>p'. add_node (\<lambda>der nodes. Inl ValueError) ?p (Fin 30) (Fin 40) (Fin 25) = Inr p'
      \<and> points_x p' = [Fin 0, Fin 30] \<and> points_y p' = [Fin 0, Fin 40]"
    by auto
  from 1 2 show ?thesis
    by blast
qed

text \<open>
  The claim as stated, with the Euclidean distance itself, fails at the threshold. The
  node \<open>(0, 0)\<close> lies at distance \<open>sqrt 2\<close> from \<open>(1, 1)\<close>, strictly below the threshold
  1.4142135623730951 (the double nearest to \<open>sqrt 2\<close>, which is larger). The program
  computes the distance as that same double, which is not below the threshold, and
  appends the point.
\<close>

theorem add_node_appends_within_threshold:
  "add_node (\<lambda>der nodes. Inl ValueError)
      \<lparr>points_x = [Fin 0], points_y = [Fin 0], origin = 0, exclude = []\<rparr>
      (Fin 1) (Fin 1) (Fin (6369051672525773 / 4503599627370496))
     = Inr \<lparr>points_x = [Fin 0, Fin 1], points_y = [Fin 0, Fin 1], origin = 0, exclude = []\<rparr>
   \<and> sqrt ((0 - 1)\<^sup>2 + (0 - 1)\<^sup>2) < (6369051672525773 / 4503599627370496 :: real)"
proof -
  have d: "hypot (fsub (Fin 0) (Fin 1)) (fsub (Fin 0) (Fin 1)) = Fin (6369051672525773 / 4503599627370496)"
    by (simp add: hypot_def fsub_def fsquare_def round64_small round64_sqrt_2)
  have "add_node (\<lambda>der nodes. Inl ValueError)
      \<lparr>points_x = [Fin 0], points_y = [Fin 0], origin = 0, exclude = []\<rparr>
      (Fin 1) (Fin 1) (Fin (6369051672525773 / 4503599627370496))
     = Inr \<lparr>points_x = [Fin 0, Fin 1], points_y = [Fin 0, Fin 1], origin = 0, exclude = []\<rparr>"
    by (simp add: add_node_def has_node_def find_node_def distances_def broadcast2_def d
        argmin_def item_def update_exclude_def)
  moreover have "sqrt ((0 - 1)\<^sup>2 + (0 - 1)\<^sup>2) < (6369051672525773 / 4503599627370496 :: real)"
    using sqrt_2_below by simp
  ultimately show ?thesis
    by blast
qed

section \<open>Properties of the exclusion intervals\<close>

lemma interpolate_lengths: "interpolate spl p = Inr (xi, yi) \<Longrightarrow> length xi = length yi"
  by (auto simp: interpolate_def split: sum.splits if_splits)

lemma flt_less_le_absurd: "flt_less a b \<Longrightarrow> flt_le b a \<Longrightarrow> False"
  by (cases a; cases b) auto

lemma nearest_index_unique:
  assumes "nearest_index xi yi x y k" "nearest_index xi yi x y k'"
  shows "k = k'"
proof -
  let ?d = "sample_distance xi yi x y"
  have k: "k < length xi" "k' < length xi" using assms by (simp_all add: nearest_index_def)
  show ?thesis
  proof (cases "\<exists>j < length xi. isnan (?d j)")
    case True
    with assms have a: "isnan (?d k)" "\<forall>j < k. \<not> isnan (?d j)"
      "isnan (?d k')" "\<forall>j < k'. \<not> isnan (?d j)"
      by (simp_all add: nearest_index_def)
    then have "\<not> k < k'" "\<not> k' < k" by blast+
    then show ?thesis by simp
  next
    case False
    with assms have a: "\<forall>j < length xi. flt_le (?d k) (?d j)" "\<forall>j < k. flt_less (?d k) (?d j)"
      "\<forall>j < length xi. flt_le (?d k') (?d j)" "\<forall>j < k'. flt_less (?d k') (?d j)"
      by (simp_all add: nearest_index_def)
    have "\<not> k < k'" using a(1,4) k flt_less_le_absurd by blast
    moreover have "\<not> k' < k" using a(2,3) k flt_less_le_absurd by blast
    ultimately show ?thesis by simp
  qed
qed

lemma argnearest_nearest_index:
  assumes len: "length xi = length yi" and k: "argnearest x y xi yi = Inr k"
  shows "nearest_index xi yi x y k"
proof -
  define d where "d = map (\<lambda>n. hypot (fsub (fst n) x) (fsub (snd n) y)) (zip xi yi)"
  define sd where "sd = sample_distance xi yi x y"
  have D: "distances x y xi yi = Inr d"
    unfolding d_def using len by (rule distances_equal_length)
  with k have a: "argmin d = Inr k" by (simp add: argnearest_def)
  have dl: "length d = length xi" using len by (simp add: d_def)
  have dj: "d ! j = sd j" if "j < length xi" for j
    using that len by (simp add: sample_distance_def d_def sd_def)
  have kl: "k < length xi" using argmin_bound [OF a] dl by simp
  have ex: "(\<exists>j < length xi. isnan (sd j)) = (\<exists>v \<in> set d. isnan v)"
  proof
    assume "\<exists>j < length xi. isnan (sd j)"
    then obtain j where j: "j < length xi" "isnan (sd j)" by blast
    have "d ! j \<in> set d" using j(1) dl by (simp only: nth_mem)
    moreover have "isnan (d ! j)" using j dj by simp
    ultimately show "\<exists>v \<in> set d. isnan v" by blast
  next
    assume "\<exists>v \<in> set d. isnan v"
    then obtain j where "j < length d" "isnan (d ! j)" by (metis in_set_conv_nth)
    then show "\<exists>j < length xi. isnan (sd j)" using dl dj by auto
  qed
  have "k < length xi \<and>
      (if \<exists>j < length xi. isnan (sd j)
       then isnan (sd k) \<and> (\<forall>j < k. \<not> isnan (sd j))
       else (\<forall>j < length xi. flt_le (sd k) (sd j)) \<and> (\<forall>j < k. flt_less (sd k) (sd j)))"
  proof (cases "\<exists>v \<in> set d. isnan v")
    case True
    note n = argmin_nan [OF True a]
    have "isnan (sd k)" using n(1) dj [OF kl] by simp
    moreover have "\<not> isnan (sd j)" if "j < k" for j
    proof -
      from that kl have jl: "j < length xi" by simp
      from n(2) that have "\<not> isnan (d ! j)" by blast
      then show ?thesis using dj [OF jl] by simp
    qed
    ultimately show ?thesis using True kl ex by simp
  next
    case False
    then have nn: "\<forall>v \<in> set d. \<not> isnan v" by blast
    note m = argmin_min [OF nn a]
    have "flt_le (sd k) (sd j)" if jl: "j < length xi" for j
    proof -
      have "d ! j \<in> set d" using jl dl by (simp only: nth_mem)
      with m(2) have "flt_le (d ! k) (d ! j)" by blast
      then show ?thesis using dj [OF jl] dj [OF kl] by simp
    qed
    moreover have "flt_less (sd k) (sd j)" if "j < k" for j
    proof -
      from that kl have jl: "j < length xi" by simp
      from m(3) that have "flt_less (d ! k) (d ! j)" by blast
      then show ?thesis using dj [OF jl] dj [OF kl] by simp
    qed
    ultimately show ?thesis using False kl ex by simp
  qed
  then show ?thesis unfolding nearest_index_def sd_def .
qed

lemma argnearest_total:
  assumes "length xi = length yi" "xi \<noteq> []"
  shows "\<exists>i. argnearest x y xi yi = Inr i \<and> i < length xi"
proof -
  let ?d = "map (\<lambda>n. hypot (fsub (fst n) x) (fsub (snd n) y)) (zip xi yi)"
  have D: "distances x y xi yi = Inr ?d" using assms(1) by (rule distances_equal_length)
  have "?d \<noteq> []" using assms by (cases xi; cases yi) auto
  then obtain i where i: "argmin ?d = Inr i" using argmin_nonempty by blast
  from argmin_bound [OF i] have "i < length xi" using assms(1) by simp
  then show ?thesis using i by (simp add: argnearest_def D)
qed

lemma argnearest_iff:
  assumes len: "length xi = length yi"
  shows "(argnearest x y xi yi = Inr k) = nearest_index xi yi x y k"
proof
  assume "argnearest x y xi yi = Inr k"
  then show "nearest_index xi yi x y k" using len by (rule argnearest_nearest_index [rotated])
next
  assume n: "nearest_index xi yi x y k"
  then have "xi \<noteq> []" by (auto simp: nearest_index_def)
  from argnearest_total [OF len this] obtain i where i: "argnearest x y xi yi = Inr i" by blast
  from argnearest_nearest_index [OF len i] n have "i = k" by (rule nearest_index_unique)
  with i show "argnearest x y xi yi = Inr k" by simp
qed

lemma snapped_range_nearest:
  assumes len: "length xi = length yi" and ne: "xi \<noteq> []"
  shows "\<exists>si ei. si < length xi \<and> ei < length xi
       \<and> nearest_index xi yi (fst (fst iv)) (snd (fst iv)) si
       \<and> nearest_index xi yi (fst (snd iv)) (snd (snd iv)) ei
       \<and> snapped_range xi yi iv = Inr (min si ei, max si ei)"
proof -
  obtain si where si: "argnearest (fst (fst iv)) (snd (fst iv)) xi yi = Inr si" "si < length xi"
    using argnearest_total [OF assms] by blast
  obtain ei where ei: "argnearest (fst (snd iv)) (snd (snd iv)) xi yi = Inr ei" "ei < length xi"
    using argnearest_total [OF assms] by blast
  have "snapped_range xi yi iv = Inr (min si ei, max si ei)"
    using si ei by (simp add: snapped_range_def)
  then show ?thesis
    using si ei argnearest_nearest_index [OF len] by blast
qed

lemma snapped_range_total:
  assumes "length xi = length yi" "xi \<noteq> []"
  shows "\<exists>lo hi. snapped_range xi yi iv = Inr (lo, hi) \<and> lo \<le> hi \<and> hi < length xi"
proof -
  from snapped_range_nearest [OF assms, of iv] obtain si ei where
    "si < length xi" "ei < length xi" "snapped_range xi yi iv = Inr (min si ei, max si ei)"
    by blast
  then show ?thesis by auto
qed

lemma hit_snapped_range:
  assumes len: "length xi = length yi" and r: "snapped_range xi yi iv = Inr (lo, hi)"
  shows "hit pidx xi yi iv = (lo \<le> pidx \<and> pidx \<le> hi)"
proof -
  from r obtain si ei where
    s: "argnearest (fst (fst iv)) (snd (fst iv)) xi yi = Inr si"
    and e: "argnearest (fst (snd iv)) (snd (snd iv)) xi yi = Inr ei"
    and lh: "lo = min si ei" "hi = max si ei"
    by (auto simp: snapped_range_def split: sum.splits)
  note ns = argnearest_nearest_index [OF len s] and ne = argnearest_nearest_index [OF len e]
  have sl: "si < length xi" "ei < length xi" using ns ne by (simp_all add: nearest_index_def)
  show ?thesis
  proof
    assume "hit pidx xi yi iv"
    then obtain si' ei' where
      "nearest_index xi yi (fst (fst iv)) (snd (fst iv)) si'"
      "nearest_index xi yi (fst (snd iv)) (snd (snd iv)) ei'"
      "min si' ei' \<le> pidx" "pidx \<le> max si' ei'"
      unfolding hit_def by blast
    moreover from this ns ne have "si' = si" "ei' = ei"
      using nearest_index_unique by blast+
    ultimately show "lo \<le> pidx \<and> pidx \<le> hi" using lh by simp
  next
    assume "lo \<le> pidx \<and> pidx \<le> hi"
    then have "min si ei \<le> pidx" "pidx \<le> max si ei" using lh by simp_all
    with ns ne sl show "hit pidx xi yi iv" unfolding hit_def by blast
  qed
qed

lemma remove_first_hit_none:
  assumes "length xi = length yi" "xi \<noteq> []"
  shows "\<forall>iv \<in> set ex. \<not> hit pidx xi yi iv \<Longrightarrow> remove_first_hit pidx xi yi ex = Inr ex"
proof (induction ex)
  case Nil
  show ?case by simp
next
  case (Cons iv ex)
  obtain lo hi where r: "snapped_range xi yi iv = Inr (lo, hi)"
    using snapped_range_total [OF assms] by blast
  with Cons show ?case by (simp add: hit_snapped_range [OF assms(1) r])
qed

lemma remove_first_hit_some:
  assumes "length xi = length yi" "xi \<noteq> []"
  shows "\<exists>iv \<in> set ex. hit pidx xi yi iv \<Longrightarrow>
    \<exists>pre iv post. ex = pre @ iv # post \<and> hit pidx xi yi iv \<and> (\<forall>j \<in> set pre. \<not> hit pidx xi yi j)
       \<and> remove_first_hit pidx xi yi ex = Inr (pre @ post)"
proof (induction ex)
  case Nil
  then show ?case by simp
next
  case (Cons iv ex)
  obtain lo hi where r: "snapped_range xi yi iv = Inr (lo, hi)"
    using snapped_range_total [OF assms] by blast
  show ?case
  proof (cases "hit pidx xi yi iv")
    case True
    then have "remove_first_hit pidx xi yi (iv # ex) = Inr ([] @ ex)"
      using r by (simp add: hit_snapped_range [OF assms(1) r])
    moreover have "iv # ex = [] @ iv # ex" by simp
    ultimately show ?thesis using True by (metis empty_iff list.set(1))
  next
    case False
    with Cons.prems have "\<exists>iv \<in> set ex. hit pidx xi yi iv" by simp
    from Cons.IH [OF this] obtain pre iv' post where
      e: "ex = pre @ iv' # post" and h: "hit pidx xi yi iv'"
      and n: "\<forall>j \<in> set pre. \<not> hit pidx xi yi j"
      and rm: "remove_first_hit pidx xi yi ex = Inr (pre @ post)" by blast
    have "remove_first_hit pidx xi yi (iv # ex) = Inr ((iv # pre) @ post)"
      using False r rm by (auto simp: hit_snapped_range [OF assms(1) r])
    moreover have "iv # ex = (iv # pre) @ iv' # post" using e by simp
    moreover have "\<forall>j \<in> set (iv # pre). \<not> hit pidx xi yi j" using False n by simp
    ultimately show ?thesis using h by blast
  qed
qed

lemma argnearest_first_occurrence:
  assumes len: "length xi = length yi" and k: "argnearest x y xi yi = Inr k"
  shows "first_occurrence xi yi k"
proof -
  let ?dist = "\<lambda>n. hypot (fsub (fst n) x) (fsub (snd n) y)"
  let ?d = "map ?dist (zip xi yi)"
  have D: "distances x y xi yi = Inr ?d" using len by (rule distances_equal_length)
  with k have a: "argmin ?d = Inr k" by (simp add: argnearest_def)
  from argmin_bound [OF a] have kl: "k < length xi" using len by simp
  have "(xi ! j, yi ! j) \<noteq> (xi ! k, yi ! k)" if "j < k" for j
  proof
    assume eq: "(xi ! j, yi ! j) = (xi ! k, yi ! k)"
    have "?d ! j = ?dist (xi ! j, yi ! j)" "?d ! k = ?dist (xi ! k, yi ! k)"
      using that kl len by simp_all
    with eq have "?d ! j = ?d ! k" by simp
    with argmin_first [OF a that] show False by simp
  qed
  with kl show ?thesis by (simp add: first_occurrence_def)
qed

lemma argnearest_curve_point:
  assumes len: "length xi = length yi"
    and fx: "list_all isfinite xi" and fy: "list_all isfinite yi"
    and ta: "told_apart xi yi"
    and fo: "first_occurrence xi yi k"
  shows "argnearest (xi ! k) (yi ! k) xi yi = Inr k"
proof -
  define d where "d = map (\<lambda>n. hypot (fsub (fst n) (xi ! k)) (fsub (snd n) (yi ! k))) (zip xi yi)"
  have D: "distances (xi ! k) (yi ! k) xi yi = Inr d"
    unfolding d_def using len by (rule distances_equal_length)
  have dl: "length d = length xi" using len by (simp add: d_def)
  from fo have kl: "k < length xi" by (simp add: first_occurrence_def)
  have fin: "\<exists>a b. xi ! j = Fin a \<and> yi ! j = Fin b" if jl: "j < length xi" for j
  proof -
    from jl len have "xi ! j \<in> set xi" "yi ! j \<in> set yi" by simp_all
    with fx fy have "isfinite (xi ! j)" "isfinite (yi ! j)" by (simp_all add: list_all_iff)
    then show ?thesis by (simp add: isfinite_iff)
  qed
  obtain a b where ab: "xi ! k = Fin a" "yi ! k = Fin b" using fin [OF kl] by blast
  have dj: "d ! j = sample_distance xi yi (xi ! k) (yi ! k) j" if jl: "j < length xi" for j
    using jl len by (simp add: d_def sample_distance_def)
  have dk: "d ! k = Fin 0"
    unfolding dj [OF kl] sample_distance_def ab by (rule hypot_self)
  have nonneg: "flt_le (Fin 0) v" if "v \<in> set d" for v
  proof -
    from that obtain j where j: "j < length d" "v = d ! j" by (metis in_set_conv_nth)
    then have jl: "j < length xi" using dl by simp
    obtain aj bj where f: "xi ! j = Fin aj" "yi ! j = Fin bj" using fin [OF jl] by blast
    have "flt_le (Fin 0) (hypot (fsub (xi ! j) (Fin a)) (fsub (yi ! j) (Fin b)))"
      by (rule hypot_nonneg) (simp_all add: f)
    then show ?thesis using j dj [OF jl] by (simp add: sample_distance_def ab)
  qed
  have nn: "\<forall>v \<in> set d. \<not> isnan v"
    using nonneg flt_le_not_nan by blast
  have least: "\<forall>v \<in> set d. flt_le (d ! k) v"
    using nonneg by (simp add: dk)
  have first: "\<forall>j < k. d ! j \<noteq> d ! k"
  proof (intro allI impI notI)
    fix j assume jk: "j < k" and eq: "d ! j = d ! k"
    then have jl: "j < length xi" using kl by simp
    from eq dk dj [OF jl] have "sample_distance xi yi (xi ! k) (yi ! k) j = Fin 0" by simp
    with ta jl kl have "(xi ! j, yi ! j) = (xi ! k, yi ! k)"
      unfolding told_apart_def by blast
    with fo jk show False unfolding first_occurrence_def by blast
  qed
  have "k < length d" using kl dl by simp
  from argmin_is [OF nn this least first] show ?thesis
    by (simp add: argnearest_def D)
qed

lemma snapped_range_first_occurrence:
  assumes "length xi = length yi" "snapped_range xi yi iv = Inr (lo, hi)"
  shows "first_occurrence xi yi lo \<and> first_occurrence xi yi hi \<and> lo \<le> hi"
proof -
  from assms(2) obtain si ei where
    s: "argnearest (fst (fst iv)) (snd (fst iv)) xi yi = Inr si"
    and e: "argnearest (fst (snd iv)) (snd (snd iv)) xi yi = Inr ei"
    and r: "lo = min si ei" "hi = max si ei"
    by (auto simp: snapped_range_def split: sum.splits)
  note argnearest_first_occurrence [OF assms(1) s] argnearest_first_occurrence [OF assms(1) e]
  then show ?thesis unfolding r by (auto simp: min_def max_def)
qed

lemma snapped_range_curve_points:
  assumes "length xi = length yi" "list_all isfinite xi" "list_all isfinite yi"
    and "told_apart xi yi"
    and "first_occurrence xi yi lo" "first_occurrence xi yi hi" "lo \<le> hi"
  shows "snapped_range xi yi ((xi ! lo, yi ! lo), (xi ! hi, yi ! hi)) = Inr (lo, hi)"
  using assms
  by (simp add: snapped_range_def argnearest_curve_point min_def max_def)

lemma snapped_ranges_total:
  assumes "length xi = length yi" "xi \<noteq> []"
  shows "\<exists>rs. snapped_ranges xi yi ex = Inr rs
     \<and> (\<forall>r \<in> set rs. first_occurrence xi yi (fst r) \<and> first_occurrence xi yi (snd r) \<and> fst r \<le> snd r)"
proof (induction ex)
  case Nil
  show ?case by simp
next
  case (Cons iv ex)
  obtain lo hi where r: "snapped_range xi yi iv = Inr (lo, hi)"
    using snapped_range_total [OF assms] by blast
  from snapped_range_first_occurrence [OF assms(1) r] Cons r show ?case by auto
qed

lemma anchors_in_range:
  assumes "length xi = length yi"
  shows "\<forall>r \<in> set rs. fst r < length xi \<and> snd r < length xi \<Longrightarrow>
    anchors xi yi rs = Inr (map (anchor_pair xi yi) rs)"
proof (induction rs)
  case Nil
  show ?case by simp
next
  case (Cons r rs)
  obtain lo hi where r: "r = (lo, hi)" by (cases r)
  with Cons assms show ?case
    by (simp add: curve_point_def item_def anchor_pair_def)
qed

lemma snapped_ranges_anchors:
  assumes "length xi = length yi" "list_all isfinite xi" "list_all isfinite yi"
    and "told_apart xi yi"
  shows "\<forall>r \<in> set rs. first_occurrence xi yi (fst r) \<and> first_occurrence xi yi (snd r) \<and> fst r \<le> snd r \<Longrightarrow>
    snapped_ranges xi yi (map (anchor_pair xi yi) rs) = Inr rs"
proof (induction rs)
  case Nil
  show ?case by simp
next
  case (Cons r rs)
  obtain lo hi where r: "r = (lo, hi)" by (cases r)
  from Cons.prems r have "snapped_range xi yi (anchor_pair xi yi r) = Inr (lo, hi)"
    using snapped_range_curve_points [OF assms] by (simp add: anchor_pair_def)
  with Cons r show ?case by simp
qed

lemma interpolate_exclude [simp]: "interpolate spl (p\<lparr>exclude := ex\<rparr>) = interpolate spl p"
  by (simp add: interpolate_def get_nodes_def nodes_of_def)






text \<open>
  Claim C2, as amended. Let the path ordering succeed (fewer than two points, or an
  origin that is an index of the node list). With at most three points, counted with
  repetition, \<open>interpolate\<close> returns the empty pair and \<open>length\<close> returns nan, without
  raising and without calling the spline fit. With four or more points both hand the
  ordered nodes to the spline fit and return what it returns: \<open>interpolate\<close> the position
  samples, \<open>length\<close> the first-derivative samples, or the error the fit raises. The guard
  \<^verbatim>\<open>len(nodes[0]) <= 3\<close> counts points; it does not look at whether they are distinct.
\<close>

theorem interpolate_needs_four_points:
  assumes start: "length (nodes_of p) \<le> 1
    \<or> (- int (length (nodes_of p)) \<le> origin p \<and> origin p < int (length (nodes_of p)))"
  shows "(length (nodes_of p) \<le> 3 \<longrightarrow>
            interpolate spl p = Inr ([], []) \<and> length_curve spl p = Inr (Scalar NaN))
       \<and> (length (nodes_of p) > 3 \<longrightarrow>
            (\<exists>xs ys. get_nodes p = Inr (xs, ys) \<and> mset (zip xs ys) = mset (nodes_of p)
               \<and> interpolate spl p =
                   (case spl 0 (xs, ys) of Inl e \<Rightarrow> Inl e
                    | Inr samples \<Rightarrow> Inr (map fst samples, map snd samples))
               \<and> length_curve spl p =
                   (case spl 1 (xs, ys) of Inl e \<Rightarrow> Inl e
                    | Inr samples \<Rightarrow> Inr (Samples (map fst samples) (map snd samples)))))"
proof -
  obtain xs ys where g: "get_nodes p = Inr (xs, ys)"
    using get_nodes_returns [OF start] by blast
  note m = get_nodes_mset [OF g]
  have 1: "interpolate spl p = Inr ([], []) \<and> length_curve spl p = Inr (Scalar NaN)"
    if "length (nodes_of p) \<le> 3"
    using that m(2) by (simp add: interpolate_def length_curve_def g)
  have 2: "interpolate spl p =
        (case spl 0 (xs, ys) of Inl e \<Rightarrow> Inl e
         | Inr samples \<Rightarrow> Inr (map fst samples, map snd samples))
      \<and> length_curve spl p =
        (case spl 1 (xs, ys) of Inl e \<Rightarrow> Inl e
         | Inr samples \<Rightarrow> Inr (Samples (map fst samples) (map snd samples)))"
    if "length (nodes_of p) > 3"
    using that m(2) by (simp add: interpolate_def length_curve_def g)
  from 1 2 g m(1) show ?thesis
    by blast
qed

theorem interpolate_needs_four_points_witness:
  "interpolate (\<lambda>der nodes. Inl ValueError)
      \<lparr>points_x = [Fin 0, Fin 1, Fin 2], points_y = [Fin 0, Fin 0, Fin 0], origin = -1, exclude = []\<rparr>
     = Inr ([], [])
   \<and> length_curve (\<lambda>der nodes. Inl ValueError)
      \<lparr>points_x = [Fin 0, Fin 1, Fin 2], points_y = [Fin 0, Fin 0, Fin 0], origin = -1, exclude = []\<rparr>
     = Inr (Scalar NaN)"
proof -
  let ?p = "\<lparr>points_x = [Fin 0, Fin 1, Fin 2], points_y = [Fin 0, Fin 0, Fin 0], origin = -1,
      exclude = []\<rparr>"
  have h: "length (nodes_of ?p) \<le> 1
    \<or> (- int (length (nodes_of ?p)) \<le> origin ?p \<and> origin ?p < int (length (nodes_of ?p)))"
    by (simp add: nodes_of_def)
  have "length (nodes_of ?p) \<le> 3"
    by (simp add: nodes_of_def)
  with interpolate_needs_four_points [OF h, of "\<lambda>der nodes. Inl ValueError"] show ?thesis
    by blast
qed

text \<open>
  The claim as stated fails in two ways. Four coinciding points are fewer than four
  distinct points, yet they pass the guard and reach the spline fit, so the result is
  the fit's (here a fit that rejects its input) and not the empty pair. And two points
  with an origin outside the node list make \<open>get_nodes\<close> raise \<open>IndexError\<close> before
  the guard is reached, in \<open>interpolate\<close> and in \<open>length\<close> alike.
\<close>

theorem interpolate_raises_or_fits_below_four_distinct:
  "interpolate (\<lambda>der nodes. Inl ValueError)
      \<lparr>points_x = [Fin 0, Fin 0, Fin 0, Fin 0], points_y = [Fin 0, Fin 0, Fin 0, Fin 0],
       origin = 0, exclude = []\<rparr> = Inl ValueError
   \<and> interpolate (\<lambda>der nodes. Inl ValueError)
      \<lparr>points_x = [Fin 0, Fin 1], points_y = [Fin 0, Fin 0], origin = 2, exclude = []\<rparr>
     = Inl IndexError
   \<and> length_curve (\<lambda>der nodes. Inl ValueError)
      \<lparr>points_x = [Fin 0, Fin 1], points_y = [Fin 0, Fin 0], origin = 2, exclude = []\<rparr>
     = Inl IndexError"
  by (simp add: interpolate_def length_curve_def get_nodes_def nodes_of_def
      nearest_neighbour_loop.simps pop_def node_distances_def argmin_def fsub_def fsquare_def)

section \<open>Properties of the tile geometry\<close>

lemma axis_map3 [simp]: "axis k (map3 f v) = f (axis k v)"
  by (cases v) simp

lemma axis_map3_2 [simp]: "axis k (map3_2 f u v) = f (axis k u) (axis k v)"
  by (cases u; cases v) simp

lemma all3_axis: "all3 P v \<Longrightarrow> P (axis k v)"
  by (cases v) simp

lemma axis_min_axis0: "axis k (min_axis0 v ws) = foldl fmin (axis k v) (map (axis k) ws)"
  by (induction ws arbitrary: v) simp_all

lemma axis_max_axis0: "axis k (max_axis0 v ws) = foldl fmax (axis k v) (map (axis k) ws)"
  by (induction ws arbitrary: v) simp_all

lemma foldl_fmin_Fin: "foldl fmin (Fin a) (map Fin as) = Fin (Min (set (a # as)))"
proof (induction as arbitrary: a)
  case Nil
  show ?case by simp
next
  case (Cons b as)
  have "fmin (Fin a) (Fin b) = Fin (min a b)" by (simp add: fmin_def min_def)
  then have "foldl fmin (Fin a) (map Fin (b # as)) = Fin (Min (set (min a b # as)))"
    using Cons by simp
  also have "Min (set (min a b # as)) = Min (set (a # b # as))"
    by (cases "as = []") (simp_all add: min.assoc)
  finally show ?case .
qed

lemma foldl_fmax_Fin: "foldl fmax (Fin a) (map Fin as) = Fin (Max (set (a # as)))"
proof (induction as arbitrary: a)
  case Nil
  show ?case by simp
next
  case (Cons b as)
  have "fmax (Fin a) (Fin b) = Fin (max a b)" by (simp add: fmax_def max_def)
  then have "foldl fmax (Fin a) (map Fin (b # as)) = Fin (Max (set (max a b # as)))"
    using Cons by simp
  also have "Max (set (max a b # as)) = Max (set (a # b # as))"
    by (cases "as = []") (simp_all add: max.assoc)
  finally show ?case .
qed

lemma extent_Tile:
  "axis k (lowers (extent (Tile lower voxel_size extra shape))) = axis k lower"
  "axis k (uppers (extent (Tile lower voxel_size extra shape)))
     = upper_bound (axis k lower) (axis k (fst shape)) (axis k voxel_size)"
  by (cases lower; cases voxel_size; cases shape; cases "fst shape"; simp add: Tile_def)+

lemma image_shape_Tile: "image_shape (Tile lower voxel_size extra shape) = shape"
  by (cases lower; cases voxel_size; cases shape; cases "fst shape"; simp add: Tile_def)

lemma astype_i_of_int:
  "- (2 ^ 31) \<le> n \<Longrightarrow> n < 2 ^ 31 \<Longrightarrow> astype_i (Fin (of_int n)) = n"
  by (simp add: astype_i_def)

lemma wrap32_nonneg:
  assumes "- (2 ^ 31) \<le> a" "a < 2 ^ 31" "- (2 ^ 31) \<le> b" "b < 2 ^ 31" "b \<le> a" "0 \<le> wrap32 (a - b)"
  shows "wrap32 (a - b) = a - b"
proof -
  have d: "0 \<le> a - b" "a - b < 2 ^ 32" using assms by simp_all
  show ?thesis
  proof (cases "a - b < 2 ^ 31")
    case True
    then have "(a - b + 2 ^ 31) mod 2 ^ 32 = a - b + 2 ^ 31" using d by simp
    then show ?thesis by (simp add: wrap32_def)
  next
    case False
    then have "(a - b + 2 ^ 31) mod 2 ^ 32 = a - b + 2 ^ 31 - 2 ^ 32"
      using d by (simp add: mod_pos_geq)
    then have "wrap32 (a - b) < 0" using d by (simp add: wrap32_def)
    with assms(6) show ?thesis by simp
  qed
qed

lemma merge_tiles_Some:
  assumes "merge_tiles tiles = Some m"
  obtains t_base others where
    "tiles = t_base # others"
    "all3 (\<lambda>n. 0 \<le> n) (map3_2 (\<lambda>ub lb. wrap32 (ub - lb))
        (map3 astype_i (map3 fceil (map3_2 fdiv
           (max_axis0 (uppers (extent t_base)) (map (uppers \<circ> extent) others))
           (info_voxel_size t_base))))
        (map3 astype_i (map3 ffloor (map3_2 fdiv
           (min_axis0 (lowers (extent t_base)) (map (lowers \<circ> extent) others))
           (info_voxel_size t_base)))))"
    "m = Tile (min_axis0 (lowers (extent t_base)) (map (lowers \<circ> extent) others))
          (info_voxel_size t_base) (info_extra t_base)
          (map3 nat (map3_2 (\<lambda>ub lb. wrap32 (ub - lb))
             (map3 astype_i (map3 fceil (map3_2 fdiv
                (max_axis0 (uppers (extent t_base)) (map (uppers \<circ> extent) others))
                (info_voxel_size t_base))))
             (map3 astype_i (map3 ffloor (map3_2 fdiv
                (min_axis0 (lowers (extent t_base)) (map (lowers \<circ> extent) others))
                (info_voxel_size t_base))))), n_channels t_base)"
  using assms
  by (auto simp: merge_tiles_def Let_def split: list.splits if_splits)

lemma round64_half: "\<bar>m\<bar> < 2 ^ 53 \<Longrightarrow> round64 (of_int m / 2) = Fin (of_int m / 2)"
proof -
  assume m: "\<bar>m\<bar> < 2 ^ 53"
  then have "\<bar>of_int m :: real\<bar> < 2 ^ 53"
    by (metis of_int_abs of_int_less_numeral_power_cancel_iff)
  then have "\<bar>of_int m * pow2 (- 1)\<bar> < 2 ^ 53" by (simp add: pow2_def)
  also have "(2::real) ^ 53 = pow2 53" by (simp add: pow2_def)
  also have "\<dots> < pow2 1024" by (rule pow2_less) simp
  finally have "\<bar>of_int m * pow2 (- 1)\<bar> < pow2 1024" .
  from round64_dyadic [OF m _ this] show ?thesis by (simp add: pow2_def)
qed





text \<open>
  Claim C8, as amended. Take an axis on which the tile extents are finite and the voxel
  size \<open>v\<close> of the first tile is positive, and let \<open>ql\<close> and \<open>qu\<close> be the float64
  quotients of the smallest lower bound and of the largest upper bound by \<open>v\<close>, with
  \<open>ql \<le> qu\<close> and both within the 32-bit range. The volume returned by \<open>merge_tiles\<close>
  starts at the smallest lower bound of the tiles, not rounded; it has
  \<open>\<lceil>qu\<rceil> - \<lfloor>ql\<rfloor>\<close> pixels, and its upper bound is the float64 value of the lower bound
  plus that many voxels. When the two quotients, the product and the sum lose nothing to
  rounding, the extent covers the union of the tile extents, and it is the union rounded
  outward to whole pixels when the smallest lower bound is a whole multiple of the voxel
  size.
\<close>

theorem merge_tiles_extent:
  assumes merged: "merge_tiles tiles = Some m"
    and lo: "map (\<lambda>t. axis k (lowers (extent t))) tiles = map Fin los"
    and hi: "map (\<lambda>t. axis k (uppers (extent t))) tiles = map Fin his"
    and v: "axis k (info_voxel_size (hd tiles)) = Fin v" and vpos: "0 < v"
    and ql: "round64 (Min (set los) / v) = Fin ql"
    and qu: "round64 (Max (set his) / v) = Fin qu"
    and ord: "ql \<le> qu"
    and range: "- (2 ^ 31) \<le> \<lfloor>ql\<rfloor>" "\<lceil>qu\<rceil> < 2 ^ 31"
  shows "axis k (lowers (extent m)) = Fin (Min (set los))
       \<and> axis k (fst (image_shape m)) = nat (\<lceil>qu\<rceil> - \<lfloor>ql\<rfloor>)
       \<and> axis k (uppers (extent m))
           = fadd (Fin (Min (set los))) (fmul (Fin (of_int (\<lceil>qu\<rceil> - \<lfloor>ql\<rfloor>))) (Fin v))
       \<and> (ql = Min (set los) / v \<and> qu = Max (set his) / v
          \<and> representable (of_int (\<lceil>qu\<rceil> - \<lfloor>ql\<rfloor>) * v)
          \<and> representable (Min (set los) + of_int (\<lceil>qu\<rceil> - \<lfloor>ql\<rfloor>) * v) \<longrightarrow>
            axis k (uppers (extent m)) = Fin (Min (set los) + of_int (\<lceil>qu\<rceil> - \<lfloor>ql\<rfloor>) * v)
            \<and> Max (set his) \<le> Min (set los) + of_int (\<lceil>qu\<rceil> - \<lfloor>ql\<rfloor>) * v
            \<and> (of_int \<lfloor>Min (set los) / v\<rfloor> * v = Min (set los) \<longrightarrow>
                 (axis k (lowers (extent m)), axis k (uppers (extent m)))
                   = rounded_outward (Min (set los)) (Max (set his)) v))"
proof -
  from merged obtain t_base others where
    tiles: "tiles = t_base # others"
    and nonneg: "all3 (\<lambda>n. 0 \<le> n) (map3_2 (\<lambda>ub lb. wrap32 (ub - lb))
        (map3 astype_i (map3 fceil (map3_2 fdiv
           (max_axis0 (uppers (extent t_base)) (map (uppers \<circ> extent) others))
           (info_voxel_size t_base))))
        (map3 astype_i (map3 ffloor (map3_2 fdiv
           (min_axis0 (lowers (extent t_base)) (map (lowers \<circ> extent) others))
           (info_voxel_size t_base)))))"
    and m: "m = Tile (min_axis0 (lowers (extent t_base)) (map (lowers \<circ> extent) others))
          (info_voxel_size t_base) (info_extra t_base)
          (map3 nat (map3_2 (\<lambda>ub lb. wrap32 (ub - lb))
             (map3 astype_i (map3 fceil (map3_2 fdiv
                (max_axis0 (uppers (extent t_base)) (map (uppers \<circ> extent) others))
                (info_voxel_size t_base))))
             (map3 astype_i (map3 ffloor (map3_2 fdiv
                (min_axis0 (lowers (extent t_base)) (map (lowers \<circ> extent) others))
                (info_voxel_size t_base))))), n_channels t_base)"
    by (rule merge_tiles_Some)
  define lb where "lb = Min (set los)"
  define ub where "ub = Max (set his)"
  define n where "n = \<lceil>qu\<rceil> - \<lfloor>ql\<rfloor>"
  from lo tiles obtain l0 ls where los: "los = l0 # ls"
    and l0: "axis k (lowers (extent t_base)) = Fin l0"
    and ls: "map (axis k) (map (lowers \<circ> extent) others) = map Fin ls"
    by (cases los) (auto simp: comp_def)
  from hi tiles obtain h0 hs where his: "his = h0 # hs"
    and h0: "axis k (uppers (extent t_base)) = Fin h0"
    and hs: "map (axis k) (map (uppers \<circ> extent) others) = map Fin hs"
    by (cases his) (auto simp: comp_def)
  have mlb: "axis k (min_axis0 (lowers (extent t_base)) (map (lowers \<circ> extent) others)) = Fin lb"
    unfolding axis_min_axis0 l0 ls lb_def los by (rule foldl_fmin_Fin)
  have mub: "axis k (max_axis0 (uppers (extent t_base)) (map (uppers \<circ> extent) others)) = Fin ub"
    unfolding axis_max_axis0 h0 hs ub_def his by (rule foldl_fmax_Fin)
  have vk: "axis k (info_voxel_size t_base) = Fin v" using v tiles by simp
  have dl: "fdiv (Fin lb) (Fin v) = Fin ql" using ql vpos by (simp add: lb_def)
  have du: "fdiv (Fin ub) (Fin v) = Fin qu" using qu vpos by (simp add: ub_def)
  have "of_int \<lfloor>ql\<rfloor> \<le> (of_int \<lceil>qu\<rceil> :: real)"
    using ord by (meson of_int_floor_le le_of_int_ceiling order_trans)
  then have le: "\<lfloor>ql\<rfloor> \<le> \<lceil>qu\<rceil>" by simp
  have L: "- (2 ^ 31) \<le> \<lfloor>ql\<rfloor>" "\<lfloor>ql\<rfloor> < 2 ^ 31" using range le by linarith+
  have U: "- (2 ^ 31) \<le> \<lceil>qu\<rceil>" "\<lceil>qu\<rceil> < 2 ^ 31" using range le by linarith+
  have al: "astype_i (ffloor (Fin ql)) = \<lfloor>ql\<rfloor>"
    using astype_i_of_int [OF L] by simp
  have au: "astype_i (fceil (Fin qu)) = \<lceil>qu\<rceil>"
    using astype_i_of_int [OF U] by simp
  have "0 \<le> wrap32 (\<lceil>qu\<rceil> - \<lfloor>ql\<rfloor>)"
    using all3_axis [OF nonneg, of k] by (simp only: axis_map3 axis_map3_2 mlb mub vk dl du al au)
  from wrap32_nonneg [OF U L le this]
  have w: "wrap32 (\<lceil>qu\<rceil> - \<lfloor>ql\<rfloor>) = n" by (simp add: n_def)
  have p2: "(2::int) ^ 31 = 2147483648" "(2::int) ^ 32 = 4294967296" by simp_all
  have n0: "0 \<le> n" "n < 2 ^ 32" using le L U unfolding n_def p2 by linarith+
  have lower: "axis k (lowers (extent m)) = Fin lb"
    unfolding m extent_Tile by (rule mlb)
  have count: "axis k (fst (image_shape m)) = nat n"
    unfolding m image_shape_Tile by (simp only: fst_conv axis_map3 axis_map3_2 mlb mub vk dl du al au w)
  have "\<bar>n\<bar> < 2 ^ 53" using n0 by simp
  from round64_of_int [OF this] have rn: "round64 (real (nat n)) = Fin (of_int n)"
    using n0 by simp
  have upper: "axis k (uppers (extent m)) = fadd (Fin lb) (fmul (Fin (of_int n)) (Fin v))"
    unfolding m extent_Tile
    by (simp only: fst_conv axis_map3 axis_map3_2 mlb mub vk dl du al au w upper_bound_def rn)
  have exact: "axis k (uppers (extent m)) = Fin (lb + of_int n * v)
      \<and> ub \<le> lb + of_int n * v
      \<and> (of_int \<lfloor>lb / v\<rfloor> * v = lb \<longrightarrow>
           (axis k (lowers (extent m)), axis k (uppers (extent m))) = rounded_outward lb ub v)"
    if e: "ql = lb / v" "qu = ub / v" "representable (of_int n * v)"
      "representable (lb + of_int n * v)"
  proof -
    have up: "axis k (uppers (extent m)) = Fin (lb + of_int n * v)"
      using e(3,4) by (simp add: upper representable_def)
    have "ub / v - lb / v \<le> of_int \<lceil>ub / v\<rceil> - of_int \<lfloor>lb / v\<rfloor>"
      by (meson diff_mono of_int_floor_le le_of_int_ceiling)
    then have "(ub / v - lb / v) * v \<le> (of_int \<lceil>ub / v\<rceil> - of_int \<lfloor>lb / v\<rfloor>) * v"
      using vpos by (simp add: mult_right_mono)
    then have cover: "ub \<le> lb + of_int n * v"
      using vpos by (simp add: algebra_simps n_def e)
    have "(axis k (lowers (extent m)), axis k (uppers (extent m))) = rounded_outward lb ub v"
      if "of_int \<lfloor>lb / v\<rfloor> * v = lb"
    proof -
      have "lb + of_int n * v = of_int \<lceil>ub / v\<rceil> * v"
        using that by (simp add: algebra_simps n_def e)
      then show ?thesis using that by (simp add: lower up rounded_outward_def)
    qed
    with up cover show ?thesis by blast
  qed
  from lower count upper exact show ?thesis
    unfolding lb_def ub_def n_def by blast
qed


theorem merge_tiles_extent_witness:
  "merge_tiles [Tile (Fin (1 / 2), Fin 0, Fin 0) (Fin (1 / 2), Fin 1, Fin 1)
                  ([] :: (string \<times> string) list) ((2, 1, 1), 1),
                Tile (Fin (3 / 2), Fin 0, Fin 0) (Fin (1 / 2), Fin 1, Fin 1) [] ((3, 1, 1), 1)]
     = Some (Tile (Fin (1 / 2), Fin 0, Fin 0) (Fin (1 / 2), Fin 1, Fin 1) [] ((5, 1, 1), 1))
   \<and> axis 0 (lowers (extent (Tile (Fin (1 / 2), Fin 0, Fin 0) (Fin (1 / 2), Fin 1, Fin 1)
         ([] :: (string \<times> string) list) ((5, 1, 1), 1)))) = Fin (1 / 2)
   \<and> axis 0 (uppers (extent (Tile (Fin (1 / 2), Fin 0, Fin 0) (Fin (1 / 2), Fin 1, Fin 1)
         ([] :: (string \<times> string) list) ((5, 1, 1), 1)))) = Fin 3
   \<and> rounded_outward (1 / 2) 3 (1 / 2) = (Fin (1 / 2), Fin 3)
   \<and> merge_tiles [Tile (Fin 0, Fin 0, Fin 0) (Fin (3602879701896397 / 36028797018963968), Fin 1, Fin 1)
                  ([] :: (string \<times> string) list) ((3, 1, 1), 1)]
     = Some (Tile (Fin 0, Fin 0, Fin 0) (Fin (3602879701896397 / 36028797018963968), Fin 1, Fin 1) []
               ((4, 1, 1), 1))
   \<and> axis 0 (uppers (extent (Tile (Fin 0, Fin 0, Fin 0)
         (Fin (3602879701896397 / 36028797018963968), Fin 1, Fin 1)
         ([] :: (string \<times> string) list) ((3, 1, 1), 1)))) = Fin (1351079888211149 / 4503599627370496)
   \<and> axis 0 (uppers (extent (Tile (Fin 0, Fin 0, Fin 0)
         (Fin (3602879701896397 / 36028797018963968), Fin 1, Fin 1)
         ([] :: (string \<times> string) list) ((4, 1, 1), 1)))) = Fin (3602879701896397 / 9007199254740992)"
proof -
  let ?a = "Tile (Fin (1 / 2), Fin 0, Fin 0) (Fin (1 / 2), Fin 1, Fin 1)
      ([] :: (string \<times> string) list) ((2, 1, 1), 1)"
  let ?b = "Tile (Fin (3 / 2), Fin 0, Fin 0) (Fin (1 / 2), Fin 1, Fin 1)
      ([] :: (string \<times> string) list) ((3, 1, 1), 1)"
  let ?m = "Tile (Fin (1 / 2), Fin 0, Fin 0) (Fin (1 / 2), Fin 1, Fin 1)
      ([] :: (string \<times> string) list) ((5, 1, 1), 1)"
  let ?d = "3602879701896397 / 36028797018963968 :: real"
  let ?c = "Tile (Fin 0, Fin 0, Fin 0) (Fin ?d, Fin 1, Fin 1) ([] :: (string \<times> string) list) ((3, 1, 1), 1)"
  let ?n = "Tile (Fin 0, Fin 0, Fin 0) (Fin ?d, Fin 1, Fin 1) ([] :: (string \<times> string) list) ((4, 1, 1), 1)"
  have r: "round_half_even 0 = 0" "round_half_even 2 = 2"
    by (simp_all add: round_half_even_def)
  have w: "wrap32 5 = 5" "wrap32 4 = 4" "wrap32 1 = 1"
    by (simp_all add: wrap32_def)
  have h: "round64 (1 / 2) = Fin (1 / 2)" "round64 (3 / 2) = Fin (3 / 2)"
    "round64 (5 / 2) = Fin (5 / 2)"
    using round64_half [of 1] round64_half [of 3] round64_half [of 5] by simp_all
  have merged: "merge_tiles [?a, ?b] = Some ?m"
    by (simp add: merge_tiles_def Tile_def upper_bound_def astype_i_def fmin_def fmax_def
        copy_fits_def fsub_def slice_length_def slice_bound_def fits_def same_extra_def r w
        round64_small h)
  have lo: "map (\<lambda>t. axis 0 (lowers (extent t))) [?a, ?b] = map Fin [1 / 2, 3 / 2]"
    by (simp add: extent_Tile)
  have hi: "map (\<lambda>t. axis 0 (uppers (extent t))) [?a, ?b] = map Fin [3 / 2, 3]"
    by (simp add: extent_Tile upper_bound_def round64_small h)
  have v: "axis 0 (info_voxel_size (hd [?a, ?b])) = Fin (1 / 2)"
    by (simp add: Tile_def)
  have vpos: "0 < (1 / 2 :: real)"
    by simp
  have ql: "round64 (Min (set [1 / 2, 3 / 2]) / (1 / 2)) = Fin 1"
    by (simp add: round64_small)
  have qu: "round64 (Max (set [3 / 2, 3]) / (1 / 2)) = Fin 6"
    by (simp add: round64_small)
  have ord: "(1 :: real) \<le> 6"
    by simp
  have range: "- (2 ^ 31) \<le> \<lfloor>1 :: real\<rfloor>" "\<lceil>6 :: real\<rceil> < 2 ^ 31"
    by simp_all
  have e: "(1::real) = Min (set [1 / 2, 3 / 2]) / (1 / 2) \<and> (6::real) = Max (set [3 / 2, 3]) / (1 / 2)
      \<and> representable (of_int (\<lceil>6 :: real\<rceil> - \<lfloor>1 :: real\<rfloor>) * (1 / 2))
      \<and> representable (Min (set [1 / 2, 3 / 2]) + of_int (\<lceil>6 :: real\<rceil> - \<lfloor>1 :: real\<rfloor>) * (1 / 2))"
    by (simp add: representable_def round64_small h)
  have whole: "of_int \<lfloor>Min (set [1 / 2, 3 / 2 :: real]) / (1 / 2)\<rfloor> * (1 / 2) = Min (set [1 / 2, 3 / 2 :: real])"
    by simp
  have mn: "Min (set [1 / 2, 3 / 2 :: real]) = 1 / 2" "Max (set [3 / 2, 3 :: real]) = 3"
    by simp_all
  have up: "1 / 2 + of_int (\<lceil>6 :: real\<rceil> - \<lfloor>1 :: real\<rfloor>) * (1 / 2) = (3 :: real)"
    by simp
  from merge_tiles_extent [OF merged lo hi v vpos ql qu ord range] e whole
  have l1: "axis 0 (lowers (extent ?m)) = Fin (1 / 2)"
    and u1: "axis 0 (uppers (extent ?m)) = Fin 3"
    and o1: "(axis 0 (lowers (extent ?m)), axis 0 (uppers (extent ?m)))
      = rounded_outward (1 / 2) 3 (1 / 2)"
    unfolding mn up by blast+
  have o: "rounded_outward (1 / 2) 3 (1 / 2) = (Fin (1 / 2), Fin 3)"
    using o1 unfolding l1 u1 by (rule sym)
  have f2: "round64 (10808639105689191 / 36028797018963968) = Fin (1351079888211149 / 4503599627370496)"
  proof -
    let ?x = "10808639105689191 / 36028797018963968 :: real"
    have b: "pow2 (- 2) \<le> \<bar>?x\<bar>" "\<bar>?x\<bar> < pow2 (- 2 + 1)" by (simp_all add: pow2_def)
    have rr: "round_half_even (?x / pow2 (- 2 - 52)) = 5404319552844596"
      by (simp add: pow2_def round_half_even_def)
    from round64_value [OF b _ _ rr] show ?thesis by (simp add: pow2_def)
  qed
  have f3: "round64 (1351079888211149 / 4503599627370496) = Fin (1351079888211149 / 4503599627370496)"
  proof -
    have "\<bar>of_int 1351079888211149 * pow2 (- 52)\<bar> < pow2 0" by (simp add: pow2_def)
    also have "pow2 0 < pow2 1024" by (rule pow2_less) simp
    finally have "\<bar>of_int 1351079888211149 * pow2 (- 52)\<bar> < pow2 1024" .
    from round64_dyadic [OF _ _ this] show ?thesis by (simp add: pow2_def)
  qed
  have f5: "round64 (10808639105689192 / 3602879701896397) = Fin (6755399441055745 / 2251799813685248)"
  proof -
    let ?x = "10808639105689192 / 3602879701896397 :: real"
    have b: "pow2 1 \<le> \<bar>?x\<bar>" "\<bar>?x\<bar> < pow2 (1 + 1)" by (simp_all add: pow2_def)
    have rr: "round_half_even (?x / pow2 (1 - 52)) = 6755399441055745"
      by (rule round_half_even_eq) (simp_all add: pow2_def)
    from round64_value [OF b _ _ rr] show ?thesis by (simp add: pow2_def)
  qed
  have f6: "round64 (3602879701896397 / 9007199254740992) = Fin (3602879701896397 / 9007199254740992)"
  proof -
    have "\<bar>of_int 3602879701896397 * pow2 (- 53)\<bar> < pow2 0" by (simp add: pow2_def)
    also have "pow2 0 < pow2 1024" by (rule pow2_less) simp
    finally have "\<bar>of_int 3602879701896397 * pow2 (- 53)\<bar> < pow2 1024" .
    from round64_dyadic [OF _ _ this] show ?thesis by (simp add: pow2_def)
  qed
  have c4: "\<lceil>6755399441055745 / 2251799813685248 :: real\<rceil> = 4"
    by (simp add: ceiling_unique)
  have ec: "axis 0 (uppers (extent ?c)) = Fin (1351079888211149 / 4503599627370496)"
    by (simp add: extent_Tile upper_bound_def round64_small f2 f3)
  have merged2: "merge_tiles [?c] = Some ?n"
    by (simp add: merge_tiles_def Tile_def upper_bound_def astype_i_def fmin_def fmax_def
        copy_fits_def fsub_def slice_length_def slice_bound_def fits_def same_extra_def r w
        round64_small f2 f3 f5 f6 c4)
  have lo2: "map (\<lambda>t. axis 0 (lowers (extent t))) [?c] = map Fin [0]"
    by (simp add: extent_Tile)
  have hi2: "map (\<lambda>t. axis 0 (uppers (extent t))) [?c] = map Fin [1351079888211149 / 4503599627370496]"
    by (simp add: extent_Tile upper_bound_def round64_small f2 f3)
  have v2: "axis 0 (info_voxel_size (hd [?c])) = Fin ?d"
    by (simp add: Tile_def)
  have vpos2: "0 < ?d"
    by simp
  have ql2: "round64 (Min (set [0]) / ?d) = Fin 0"
    by simp
  have qu2: "round64 (Max (set [1351079888211149 / 4503599627370496]) / ?d)
      = Fin (6755399441055745 / 2251799813685248)"
    by (simp add: f5)
  have ord2: "(0 :: real) \<le> 6755399441055745 / 2251799813685248"
    by simp
  have range2: "- (2 ^ 31) \<le> \<lfloor>0 :: real\<rfloor>" "\<lceil>6755399441055745 / 2251799813685248 :: real\<rceil> < 2 ^ 31"
    by (simp_all add: c4)
  have up2: "fadd (Fin (Min (set [0])))
      (fmul (Fin (of_int (\<lceil>6755399441055745 / 2251799813685248 :: real\<rceil> - \<lfloor>0 :: real\<rfloor>))) (Fin ?d))
      = Fin (3602879701896397 / 9007199254740992)"
    by (simp add: c4 f6)
  from merge_tiles_extent [OF merged2 lo2 hi2 v2 vpos2 ql2 qu2 ord2 range2]
  have u2: "axis 0 (uppers (extent ?n)) = Fin (3602879701896397 / 9007199254740992)"
    unfolding up2 by blast
  from merged l1 u1 o merged2 ec u2 show ?thesis
    by blast
qed

text \<open>
  The claim as stated fails when the smallest lower bound is not a whole multiple of the
  voxel size. A single tile from 0.5 to 2.5 with voxels of size 1 merges into a volume
  from 0.5 to 3.5, while the union rounded outward to whole pixels is 0 to 3.
\<close>

theorem merge_tiles_not_rounded_outward:
  "merge_tiles [Tile (Fin (1 / 2), Fin 0, Fin 0) (Fin 1, Fin 1, Fin 1) ([] :: (string \<times> string) list) ((2, 1, 1), 1)]
     = Some (Tile (Fin (1 / 2), Fin 0, Fin 0) (Fin 1, Fin 1, Fin 1) [] ((3, 1, 1), 1))
   \<and> extent (Tile (Fin (1 / 2), Fin 0, Fin 0) (Fin 1, Fin 1, Fin 1) ([] :: (string \<times> string) list) ((2, 1, 1), 1))
     = (Fin (1 / 2), Fin (5 / 2), Fin 0, Fin 1, Fin 0, Fin 1)
   \<and> extent (Tile (Fin (1 / 2), Fin 0, Fin 0) (Fin 1, Fin 1, Fin 1) ([] :: (string \<times> string) list) ((3, 1, 1), 1))
     = (Fin (1 / 2), Fin (7 / 2), Fin 0, Fin 1, Fin 0, Fin 1)
   \<and> rounded_outward (1 / 2) (5 / 2) 1 = (Fin 0, Fin 3)"
proof -
  have c: "\<lceil>5 / 2 :: real\<rceil> = 3" by (simp add: ceiling_unique)
  have r: "round_half_even 0 = 0" by (simp add: round_half_even_def)
  have w: "wrap32 3 = 3" "wrap32 1 = 1" by (simp_all add: wrap32_def)
  have h: "round64 (1 / 2) = Fin (1 / 2)" "round64 (5 / 2) = Fin (5 / 2)"
    "round64 (7 / 2) = Fin (7 / 2)"
    using round64_half [of 1] round64_half [of 5] round64_half [of 7] by simp_all
  show ?thesis
    by (simp add: merge_tiles_def Tile_def upper_bound_def astype_i_def fmin_def fmax_def
        copy_fits_def fsub_def slice_length_def slice_bound_def fits_def same_extra_def
        rounded_outward_def c r w round64_small h)
qed

end
